theory Spec2Isabelle
  imports Main "HOL-Library.Log_Nat"
begin

section \<open>Machine arithmetic of the Go sources\<close>

subsection \<open>64-bit signed integers\<close>

text \<open>
  \<^verbatim>\<open>protocol.ByteCount\<close> and \<^verbatim>\<open>protocol.PacketNumber\<close> are Go \<^verbatim>\<open>int64\<close>.  They are
  modelled as \<^typ>\<open>int\<close>; every addition and multiplication of the source is wrapped by
  \<open>i64\<close>, Go's two's-complement wrap-around.
\<close>

type_synonym ByteCount = int
type_synonym PacketNumber = int

definition i64 :: "int \<Rightarrow> int" where
  "i64 x = (x + 2 ^ 63) mod 2 ^ 64 - 2 ^ 63"

subsection \<open>IEEE-754 binary64\<close>

text \<open>
  A finite \<^verbatim>\<open>float64\<close> is modelled by the rational number it denotes.  Every arithmetic
  operation of the source is computed exactly and then rounded by \<open>fl64\<close>: round to
  nearest, ties to even, 53 significant bits, gradual underflow below \<open>2 powi (-1022)\<close>.
  Operations are rounded one by one (no fused multiply-add, as on amd64).  Magnitudes
  in the sender are bounded by products of two \<^verbatim>\<open>int64\<close> values, far below the overflow
  threshold of binary64, so overflow to infinity is not part of the model.
\<close>

definition ilog2 :: "rat \<Rightarrow> int" where
  \<comment> \<open>for \<open>0 < x\<close>: the integer \<open>e\<close> with \<open>2 powi e \<le> x < 2 powi (e + 1)\<close>\<close>
  "ilog2 x = (if 1 \<le> x then bitlen \<lfloor>x\<rfloor> - 1 else - bitlen (\<lceil>1 / x\<rceil> - 1))"

definition round_even :: "rat \<Rightarrow> int" where
  "round_even y =
     (let n = \<lfloor>y\<rfloor>; r = y - of_int n
      in if r < 1 / 2 then n
         else if 1 / 2 < r then n + 1
         else if even n then n else n + 1)"

definition quantum :: "rat \<Rightarrow> rat" where
  \<comment> \<open>the spacing of binary64 numbers around \<open>x\<close>\<close>
  "quantum x = 2 powi (max (ilog2 \<bar>x\<bar>) (- 1022) - 52)"

definition bexp :: "rat \<Rightarrow> int" where
  \<comment> \<open>the exponent of the binade of \<open>x\<close>, held at the smallest normal exponent\<close>
  "bexp x = max (ilog2 \<bar>x\<bar>) (- 1022)"

definition fl64 :: "rat \<Rightarrow> rat" where
  "fl64 x =
     (if x = 0 then 0
      else sgn x * of_int (round_even (\<bar>x\<bar> / quantum x)) * quantum x)"

definition float64 :: "int \<Rightarrow> rat" where
  \<comment> \<open>the conversion \<^verbatim>\<open>float64(n)\<close> of an \<^verbatim>\<open>int64\<close>\<close>
  "float64 n = fl64 (of_int n)"

definition int64_indefinite :: int where
  \<comment> \<open>Go leaves the conversion of an out-of-range, infinite or NaN float to an integer
      implementation-dependent; amd64 yields the smallest \<^verbatim>\<open>int64\<close>.\<close>
  "int64_indefinite = - (2 ^ 63)"

definition ByteCount_of :: "rat \<Rightarrow> ByteCount" where
  \<comment> \<open>the conversion \<^verbatim>\<open>protocol.ByteCount(f)\<close> of a \<^verbatim>\<open>float64\<close>: truncation toward zero\<close>
  "ByteCount_of x =
     (let t = (if x < 0 then \<lceil>x\<rceil> else \<lfloor>x\<rfloor>)
      in if - (2 ^ 63) \<le> t \<and> t < 2 ^ 63 then t else int64_indefinite)"

section \<open>The Prague sender (internal/congestion/prague\_sender.go)\<close>

definition pragueAlphaGain :: rat where
  "pragueAlphaGain = 1 / 16"

definition pragueMinCwnd :: int where
  "pragueMinCwnd = 2"

definition pragueInitialCwnd :: int where
  "pragueInitialCwnd = 32"

definition pragueVirtualRTTMin :: int where
  \<comment> \<open>25 ms in nanoseconds\<close>
  "pragueVirtualRTTMin = 25 * 1000000"

definition pragueBeta :: rat where
  "pragueBeta = 1 / 2"

text \<open>
  The sender's struct.  The fields \<^verbatim>\<open>rttStats\<close>, \<^verbatim>\<open>connStats\<close> and \<^verbatim>\<open>clock\<close> are
  pointers to collaborators that no sender method assigns; they are left out.  The pacer
  lives in another file of the package; its state is the type parameter \<open>'p\<close>.
\<close>

record 'p pragueSender =
  alpha :: rat
  alphaGain :: rat
  congestionWindow :: ByteCount
  slowStartThreshold :: ByteCount
  cwndCarry :: rat
  virtualRTTMin :: int
  largestSentPacketNumber :: PacketNumber
  largestAckedPacketNumber :: PacketNumber
  largestSentAtLastCutback :: PacketNumber
  ecnMarkedBytes :: ByteCount
  totalAckedBytes :: ByteCount
  l4sEnabled :: bool
  inSlowStart :: bool
  inRecovery :: bool
  lastCutbackExitedSlowstart :: bool
  maxDatagramSize :: ByteCount
  initialCongestionWindow :: ByteCount
  initialMaxCongestionWindow :: ByteCount
  pacer :: 'p

text \<open>
  \<^verbatim>\<open>newPragueSender\<close>.  The constants \<^verbatim>\<open>protocol.MaxByteCount\<close> and
  \<^verbatim>\<open>protocol.DefaultInitialMaxStreamData\<close> are declared in package \<^verbatim>\<open>protocol\<close>, outside
  the files at hand, and are the first two parameters; the third is the pacer that
  \<^verbatim>\<open>newPacer\<close> returns.  Fields the composite literal does not mention get Go's zero
  value.
\<close>

definition newPragueSender ::
  "ByteCount \<Rightarrow> ByteCount \<Rightarrow> 'p \<Rightarrow> ByteCount \<Rightarrow> bool \<Rightarrow> 'p pragueSender" where
  "newPragueSender MaxByteCount DefaultInitialMaxStreamData newPacer initialMaxDatagramSize l4s =
     \<lparr> alpha = 0,
       alphaGain = pragueAlphaGain,
       congestionWindow = i64 (pragueInitialCwnd * initialMaxDatagramSize),
       slowStartThreshold = MaxByteCount,
       cwndCarry = 0,
       virtualRTTMin = pragueVirtualRTTMin,
       largestSentPacketNumber = 0,
       largestAckedPacketNumber = 0,
       largestSentAtLastCutback = 0,
       ecnMarkedBytes = 0,
       totalAckedBytes = 0,
       l4sEnabled = l4s,
       inSlowStart = True,
       inRecovery = False,
       lastCutbackExitedSlowstart = False,
       maxDatagramSize = initialMaxDatagramSize,
       initialCongestionWindow = i64 (pragueInitialCwnd * initialMaxDatagramSize),
       initialMaxCongestionWindow = DefaultInitialMaxStreamData,
       pacer = newPacer \<rparr>"

definition minCongestionWindow :: "'p pragueSender \<Rightarrow> ByteCount" where
  "minCongestionWindow p = i64 (pragueMinCwnd * maxDatagramSize p)"

definition CanSend :: "'p pragueSender \<Rightarrow> ByteCount \<Rightarrow> bool" where
  "CanSend p bytesInFlight \<longleftrightarrow> bytesInFlight < congestionWindow p"

definition InSlowStart :: "'p pragueSender \<Rightarrow> bool" where
  "InSlowStart p = inSlowStart p"

definition InRecovery :: "'p pragueSender \<Rightarrow> bool" where
  "InRecovery p = inRecovery p"

definition GetCongestionWindow :: "'p pragueSender \<Rightarrow> ByteCount" where
  "GetCongestionWindow p = congestionWindow p"

text \<open>
  \<^verbatim>\<open>OnPacketSent\<close>: the pacer's \<^verbatim>\<open>SentPacket\<close> method is the parameter \<open>SentPacket\<close>.
\<close>

definition OnPacketSent ::
  "(int \<Rightarrow> ByteCount \<Rightarrow> 'p \<Rightarrow> 'p) \<Rightarrow> int \<Rightarrow> ByteCount \<Rightarrow> PacketNumber \<Rightarrow> ByteCount \<Rightarrow> bool
     \<Rightarrow> 'p pragueSender \<Rightarrow> 'p pragueSender" where
  "OnPacketSent SentPacket sentTime bytesInFlight packetNumber bytes isRetransmittable p =
     (let p1 = p\<lparr>pacer := SentPacket sentTime bytes (pacer p)\<rparr>
      in if \<not> isRetransmittable then p1
         else if packetNumber > largestSentPacketNumber p1
              then p1\<lparr>largestSentPacketNumber := packetNumber\<rparr>
              else p1)"

definition MaybeExitSlowStart :: "'p pragueSender \<Rightarrow> 'p pragueSender" where
  "MaybeExitSlowStart p =
     (if inSlowStart p \<and> (alpha p > 0 \<or> congestionWindow p \<ge> slowStartThreshold p)
      then p\<lparr>inSlowStart := False\<rparr>
      else p)"

definition pragueAdditiveIncrease :: "ByteCount \<Rightarrow> 'p pragueSender \<Rightarrow> 'p pragueSender" where
  "pragueAdditiveIncrease ackedBytes p =
     (if congestionWindow p \<ge> initialMaxCongestionWindow p then p
      else
        let unmarkedBytes =
              (if l4sEnabled p \<and> alpha p > 0
               then ByteCount_of (fl64 (float64 ackedBytes * fl64 (1 - alpha p)))
               else ackedBytes);
            increase =
              (if float64 (congestionWindow p) = 0 then int64_indefinite
               else ByteCount_of
                      (fl64 (fl64 (float64 (maxDatagramSize p) * float64 unmarkedBytes)
                             / float64 (congestionWindow p))))
        in p\<lparr>congestionWindow := i64 (congestionWindow p + increase)\<rparr>)"

definition OnPacketAcked ::
  "PacketNumber \<Rightarrow> ByteCount \<Rightarrow> ByteCount \<Rightarrow> int \<Rightarrow> 'p pragueSender \<Rightarrow> 'p pragueSender" where
  "OnPacketAcked number ackedBytes priorInFlight eventTime p =
     (let p1 = (if number > largestAckedPacketNumber p
                then p\<lparr>largestAckedPacketNumber := number\<rparr> else p);
          p2 = p1\<lparr>totalAckedBytes := i64 (totalAckedBytes p1 + ackedBytes)\<rparr>
      in if inRecovery p2 \<and> number \<le> largestSentAtLastCutback p2 then p2
         else if inSlowStart p2
              then MaybeExitSlowStart
                     (p2\<lparr>congestionWindow := i64 (congestionWindow p2 + ackedBytes)\<rparr>)
              else pragueAdditiveIncrease ackedBytes p2)"

definition OnCongestionEvent ::
  "PacketNumber \<Rightarrow> ByteCount \<Rightarrow> ByteCount \<Rightarrow> 'p pragueSender \<Rightarrow> 'p pragueSender" where
  "OnCongestionEvent number lostBytes priorInFlight p =
     (if number \<le> largestSentAtLastCutback p then p
      else
        let p1 = p\<lparr>lastCutbackExitedSlowstart := inSlowStart p,
                   inSlowStart := False,
                   inRecovery := True,
                   largestSentAtLastCutback := largestSentPacketNumber p\<rparr>;
            p2 = p1\<lparr>slowStartThreshold :=
                        ByteCount_of (fl64 (float64 (congestionWindow p1) * pragueBeta))\<rparr>
        in p2\<lparr>congestionWindow :=
                  ByteCount_of (max (float64 (minCongestionWindow p2))
                                    (float64 (slowStartThreshold p2)))\<rparr>)"

text \<open>
  \<^verbatim>\<open>OnRetransmissionTimeout\<close>: \<^verbatim>\<open>protocol.InvalidPacketNumber\<close> is declared outside the
  files at hand and is the first parameter.  Go's integer division truncates toward zero.
\<close>

definition OnRetransmissionTimeout ::
  "PacketNumber \<Rightarrow> bool \<Rightarrow> 'p pragueSender \<Rightarrow> 'p pragueSender" where
  "OnRetransmissionTimeout InvalidPacketNumber packetsRetransmitted p =
     (let p1 = p\<lparr>largestSentAtLastCutback := InvalidPacketNumber,
                   inSlowStart := False,
                   slowStartThreshold :=
                     (if congestionWindow p < 0 then - ((- congestionWindow p) div 2)
                      else congestionWindow p div 2)\<rparr>
      in p1\<lparr>congestionWindow := minCongestionWindow p1\<rparr>)"

datatype panic = DecreasingMaxDatagramSize ByteCount ByteCount

definition SetMaxDatagramSize :: "ByteCount \<Rightarrow> 'p pragueSender \<Rightarrow> panic + 'p pragueSender" where
  "SetMaxDatagramSize newSize p =
     (if newSize < maxDatagramSize p
      then Inl (DecreasingMaxDatagramSize (maxDatagramSize p) newSize)
      else
        let cwndIsMinCwnd = (congestionWindow p = minCongestionWindow p);
            p1 = p\<lparr>maxDatagramSize := newSize\<rparr>
        in Inr (if cwndIsMinCwnd then p1\<lparr>congestionWindow := minCongestionWindow p1\<rparr>
                else p1))"

definition updateAlpha :: "'p pragueSender \<Rightarrow> 'p pragueSender" where
  "updateAlpha p =
     (if totalAckedBytes p = 0 then p
      else
        let markingFraction = fl64 (float64 (ecnMarkedBytes p) / float64 (totalAckedBytes p));
            a1 = (if alpha p = 0 \<and> markingFraction > 0 then 1
                  else fl64 (fl64 (fl64 (1 - alphaGain p) * alpha p)
                             + fl64 (alphaGain p * markingFraction)));
            a2 = (if a1 < 0 then 0 else a1);
            a3 = (if a2 > 1 then 1 else a2)
        in p\<lparr>alpha := a3\<rparr>)"

definition applyECNCongestionResponse :: "'p pragueSender \<Rightarrow> 'p pragueSender" where
  "applyECNCongestionResponse p =
     (if alpha p \<le> 0 then p
      else
        let reductionFactor = fl64 (1 - fl64 (alpha p / 2));
            newCwnd = fl64 (float64 (congestionWindow p) * reductionFactor);
            carry = fl64 (cwndCarry p + fl64 (float64 (congestionWindow p) - newCwnd));
            cwndReduction = ByteCount_of carry;
            newCwnd' = (if carry \<ge> 1 then fl64 (newCwnd - float64 cwndReduction) else newCwnd);
            carry' = (if carry \<ge> 1 then fl64 (carry - float64 cwndReduction) else carry);
            p1 = p\<lparr>cwndCarry := carry'\<rparr>;
            p2 = p1\<lparr>congestionWindow :=
                        ByteCount_of (max newCwnd' (float64 (minCongestionWindow p1)))\<rparr>
        in if inSlowStart p2 then p2\<lparr>inSlowStart := False\<rparr> else p2)"

definition OnECNFeedback :: "ByteCount \<Rightarrow> 'p pragueSender \<Rightarrow> 'p pragueSender" where
  "OnECNFeedback ecnBytes p =
     (if \<not> l4sEnabled p then p
      else
        let p1 = p\<lparr>ecnMarkedBytes := i64 (ecnMarkedBytes p + ecnBytes)\<rparr>
        in if totalAckedBytes p1 > 0
           then (applyECNCongestionResponse (updateAlpha p1))
                  \<lparr>ecnMarkedBytes := 0, totalAckedBytes := 0\<rparr>
           else p1)"

subsection \<open>Sequences of sender operations\<close>

datatype op =
    PacketSent int ByteCount PacketNumber ByteCount bool
  | PacketAcked PacketNumber ByteCount ByteCount int
  | CongestionEvent PacketNumber ByteCount ByteCount
  | RetransmissionTimeout bool
  | MaxDatagramSize ByteCount
  | ECNFeedback ByteCount
  | ExitSlowStartCheck

fun step ::
  "PacketNumber \<Rightarrow> (int \<Rightarrow> ByteCount \<Rightarrow> 'p \<Rightarrow> 'p) \<Rightarrow> op \<Rightarrow> 'p pragueSender
     \<Rightarrow> panic + 'p pragueSender" where
  "step ipn sp (PacketSent t f n b r) p = Inr (OnPacketSent sp t f n b r p)"
| "step ipn sp (PacketAcked n a f t) p = Inr (OnPacketAcked n a f t p)"
| "step ipn sp (CongestionEvent n l f) p = Inr (OnCongestionEvent n l f p)"
| "step ipn sp (RetransmissionTimeout r) p = Inr (OnRetransmissionTimeout ipn r p)"
| "step ipn sp (MaxDatagramSize m) p = SetMaxDatagramSize m p"
| "step ipn sp (ECNFeedback e) p = Inr (OnECNFeedback e p)"
| "step ipn sp ExitSlowStartCheck p = Inr (MaybeExitSlowStart p)"

text \<open>A panic ends the run, as it ends the Go program.\<close>

fun run ::
  "PacketNumber \<Rightarrow> (int \<Rightarrow> ByteCount \<Rightarrow> 'p \<Rightarrow> 'p) \<Rightarrow> op list \<Rightarrow> 'p pragueSender
     \<Rightarrow> panic + 'p pragueSender" where
  "run ipn sp [] p = Inr p"
| "run ipn sp (x # xs) p =
     (case step ipn sp x p of Inl e \<Rightarrow> Inl e | Inr p' \<Rightarrow> run ipn sp xs p')"

subsection \<open>The window floor as an invariant\<close>

text \<open>
  The floor \<open>cwnd \<ge> 2 * max_datagram_size\<close> is carried through a run together with the
  ranges that keep the 64-bit and binary64 arithmetic of the sender exact enough:
  \<open>M\<close> is \<^verbatim>\<open>protocol.MaxByteCount\<close>, the slow-start threshold of a sender that has not
  left slow start.
\<close>

definition cwnd_max :: int where
  "cwnd_max = 2 ^ 62 + 2 ^ 32"

definition sender_inv :: "ByteCount \<Rightarrow> 'p pragueSender \<Rightarrow> bool" where
  "sender_inv M p \<longleftrightarrow>
     0 < maxDatagramSize p \<and> maxDatagramSize p \<le> 2 ^ 40
     \<and> 2 * maxDatagramSize p \<le> congestionWindow p \<and> congestionWindow p \<le> cwnd_max
     \<and> 0 \<le> alpha p \<and> alpha p \<le> 1
     \<and> 0 \<le> cwndCarry p \<and> cwndCarry p \<le> 1
     \<and> initialMaxCongestionWindow p \<le> 2 ^ 62
     \<and> 2 ^ 45 < M \<and> M \<le> 2 ^ 62
     \<and> (inSlowStart p \<longrightarrow> slowStartThreshold p = M \<and> congestionWindow p < M)"


text \<open>
  The inputs under which the floor is kept: acknowledged byte counts between 0 and
  \<open>2 ^ 32\<close>, and a new datagram size of at most \<open>2 ^ 40\<close> that arrives when the window
  sits at the minimum (and is rescaled) or is already at least twice the new size.
\<close>

fun ok_op :: "'p pragueSender \<Rightarrow> op \<Rightarrow> bool" where
  "ok_op p (PacketAcked n a f t) \<longleftrightarrow> 0 \<le> a \<and> a \<le> 2 ^ 32"
| "ok_op p (MaxDatagramSize m) \<longleftrightarrow>
     m \<le> 2 ^ 40 \<and> (congestionWindow p = minCongestionWindow p \<or> 2 * m \<le> congestionWindow p)"
| "ok_op p x \<longleftrightarrow> True"

fun admissible ::
  "PacketNumber \<Rightarrow> (int \<Rightarrow> ByteCount \<Rightarrow> 'p \<Rightarrow> 'p) \<Rightarrow> op list \<Rightarrow> 'p pragueSender \<Rightarrow> bool" where
  "admissible ipn sp [] p \<longleftrightarrow> True"
| "admissible ipn sp (x # xs) p \<longleftrightarrow>
     ok_op p x \<and> (case step ipn sp x p of Inl e \<Rightarrow> True | Inr p' \<Rightarrow> admissible ipn sp xs p')"


section \<open>Configuration (the l4s-config example)\<close>

text \<open>
  \<^verbatim>\<open>protocol.CongestionControlAlgorithm\<close> is declared outside the files at hand; the
  sources name two values, \<^verbatim>\<open>CongestionControlRFC9002\<close> (the zero value of an unset
  field) and \<^verbatim>\<open>CongestionControlPrague\<close>.  Of \<^verbatim>\<open>quic.Config\<close> the example reads and
  writes four fields; durations are in nanoseconds.
\<close>

datatype CongestionControlAlgorithm = CongestionControlRFC9002 | CongestionControlPrague

record Config =
  EnableL4S :: bool
  CongestionControlAlgorithm :: CongestionControlAlgorithm
  MaxIdleTimeout :: int
  HandshakeIdleTimeout :: int

datatype error = Errorf string

definition zeroConfig :: Config where
  \<comment> \<open>the composite literal \<^verbatim>\<open>&quic.Config{}\<close>\<close>
  "zeroConfig =
     \<lparr> EnableL4S = False, CongestionControlAlgorithm = CongestionControlRFC9002,
       MaxIdleTimeout = 0, HandshakeIdleTimeout = 0 \<rparr>"

text \<open>A \<^verbatim>\<open>*quic.Config\<close> may be nil (\<open>None\<close>); a nil \<^verbatim>\<open>error\<close> is \<open>None\<close>.\<close>

definition validateConfigExample :: "Config option \<Rightarrow> error option" where
  "validateConfigExample config =
     (case config of
        None \<Rightarrow> None
      | Some c \<Rightarrow>
          if EnableL4S c \<and> CongestionControlAlgorithm c \<noteq> CongestionControlPrague
          then Some (Errorf
                 ''L4S can only be enabled when using Prague congestion control algorithm'')
          else None)"

definition populateConfigExample :: "Config option \<Rightarrow> Config" where
  "populateConfigExample config =
     (let c = (case config of None \<Rightarrow> zeroConfig | Some c \<Rightarrow> c);
          algorithm =
            (if EnableL4S c then CongestionControlPrague
             else if CongestionControlAlgorithm c = CongestionControlPrague
                  then CongestionControlAlgorithm c
                  else CongestionControlRFC9002)
      in \<lparr> EnableL4S = EnableL4S c,
           CongestionControlAlgorithm = algorithm,
           MaxIdleTimeout = 300 * 1000000000,
           HandshakeIdleTimeout = 5 * 1000000000 \<rparr>)"

section \<open>ECN codepoint selection\<close>

datatype ECN = NotECT | ECT0 | ECT1 | CE

text \<open>
  Modelled from the spec: \<^verbatim>\<open>sentPacketHandler.ECNMode\<close> of package \<^verbatim>\<open>ackhandler\<close>; the
  sources at hand hold its tests and an abridged listing in the tuning guide, not the
  method.  Section 4.3 of the specification: for a short-header packet with ECN usable,
  ECT(1) when L4S is enabled and the algorithm is Prague, otherwise ECT(0); Not-ECT when
  ECN is disabled or its validation failed; Not-ECT for long-header packets.
\<close>

definition ECNMode :: "bool \<Rightarrow> bool \<Rightarrow> CongestionControlAlgorithm \<Rightarrow> bool \<Rightarrow> ECN" where
  "ECNMode ecnUsable enableL4S algorithm isShortHeaderPacket =
     (if \<not> isShortHeaderPacket then NotECT
      else if \<not> ecnUsable then NotECT
      else if enableL4S \<and> algorithm = CongestionControlPrague then ECT1
      else ECT0)"

text \<open>
  The abridged listing of the tuning guide, which shows the choice between the two
  ECN-capable codepoints only.
\<close>

definition ECNMode_guide :: "bool \<Rightarrow> CongestionControlAlgorithm \<Rightarrow> bool \<Rightarrow> ECN" where
  "ECNMode_guide enableL4S algorithm isShortHeaderPacket =
     (if enableL4S \<and> algorithm = CongestionControlPrague then ECT1 else ECT0)"

section \<open>Properties of the machine arithmetic\<close>

subsection \<open>Rounding: binades, monotonicity, exactly representable numbers\<close>

lemma ilog2_lower: assumes "0 < x" shows "2 powi (ilog2 x) \<le> x"
proof (cases "1 \<le> x")
  case True
  define n where "n = \<lfloor>x\<rfloor>"
  have n: "0 < n" using True by (simp add: n_def)
  from bitlen_bounds [OF n] have a: "2 ^ nat (bitlen n - 1) \<le> n" by simp
  have b: "0 \<le> bitlen n - 1" using n by (simp add: bitlen_def floorlog_def)
  have "(2::rat) powi (bitlen n - 1) = of_int (2 ^ nat (bitlen n - 1))"
    using b by (simp add: power_int_def)
  also have "\<dots> \<le> of_int n" using a by (simp only: of_int_le_iff)
  also have "\<dots> \<le> x" by (simp add: n_def)
  finally show ?thesis using True by (simp add: ilog2_def n_def)
next
  case False
  define c where "c = \<lceil>1 / x\<rceil> - 1"
  have y: "1 < 1 / x" using False assms by simp
  have c: "0 < c" using y by (simp add: c_def less_ceiling_iff)
  from bitlen_bounds [OF c] have a: "c < 2 ^ nat (bitlen c)" by simp
  then have "c + 1 \<le> 2 ^ nat (bitlen c)" by simp
  then have "(of_int (c + 1) :: rat) \<le> of_int (2 ^ nat (bitlen c))" by (simp only: of_int_le_iff)
  moreover have "1 / x \<le> of_int (c + 1)" by (simp add: c_def)
  moreover have "(of_int (2 ^ nat (bitlen c)) :: rat) = 2 ^ nat (bitlen c)" by simp
  ultimately have "1 / x \<le> 2 ^ nat (bitlen c)" by linarith
  then have "1 / 2 ^ nat (bitlen c) \<le> x" using assms
    by (simp add: field_simps)
  moreover have "(2::rat) powi (- bitlen c) = 1 / 2 ^ nat (bitlen c)"
    by (simp add: power_int_def field_simps bitlen_nonneg)
  ultimately show ?thesis using False by (simp add: ilog2_def c_def)
qed

lemma ilog2_upper: assumes "0 < x" shows "x < 2 powi (ilog2 x + 1)"
proof (cases "1 \<le> x")
  case True
  define n where "n = \<lfloor>x\<rfloor>"
  have n: "0 < n" using True by (simp add: n_def)
  from bitlen_bounds [OF n] have a: "n < 2 ^ nat (bitlen n)" by simp
  then have "n + 1 \<le> 2 ^ nat (bitlen n)" by simp
  then have "(of_int (n + 1) :: rat) \<le> of_int (2 ^ nat (bitlen n))" by (simp only: of_int_le_iff)
  moreover have "x < of_int (n + 1)" using floor_correct [of x] by (simp add: n_def)
  moreover have "(of_int (2 ^ nat (bitlen n)) :: rat) = 2 ^ nat (bitlen n)" by simp
  ultimately have "x < 2 ^ nat (bitlen n)" by linarith
  moreover have "(2::rat) powi (bitlen n) = 2 ^ nat (bitlen n)"
    by (simp add: power_int_def bitlen_nonneg)
  ultimately show ?thesis using True by (simp add: ilog2_def n_def)
next
  case False
  define c where "c = \<lceil>1 / x\<rceil> - 1"
  have y: "1 < 1 / x" using False assms by simp
  have c: "0 < c" using y by (simp add: c_def less_ceiling_iff)
  have b: "0 \<le> bitlen c - 1" using c by (simp add: bitlen_def floorlog_def)
  from bitlen_bounds [OF c] have a: "2 ^ nat (bitlen c - 1) \<le> c" by simp
  have "(2::rat) ^ nat (bitlen c - 1) = of_int (2 ^ nat (bitlen c - 1))" by simp
  also have "\<dots> \<le> of_int c" using a by (simp only: of_int_le_iff)
  also have "of_int c < 1 / x" by (simp add: c_def) linarith
  finally have "2 ^ nat (bitlen c - 1) < 1 / x" .
  then have "x < 1 / 2 ^ nat (bitlen c - 1)" using assms
    by (simp add: field_simps)
  moreover have "(2::rat) powi (- bitlen c + 1) = 1 / 2 ^ nat (bitlen c - 1)"
    using b by (simp add: power_int_def field_simps)
  ultimately show ?thesis using False by (simp add: ilog2_def c_def)
qed

lemma round_even_of_int [simp]: "round_even (of_int n) = n"
  by (simp add: round_even_def)

lemma round_even_ge: "of_int n \<le> y \<Longrightarrow> n \<le> round_even y"
proof -
  assume "of_int n \<le> y"
  then have "n \<le> \<lfloor>y\<rfloor>" by (simp add: le_floor_iff)
  then show ?thesis by (simp add: round_even_def Let_def)
qed

lemma round_even_le: "y \<le> of_int n \<Longrightarrow> round_even y \<le> n"
proof -
  assume a: "y \<le> of_int n"
  show ?thesis
  proof (cases "y = of_int n")
    case True then show ?thesis by simp
  next
    case False
    with a have "y < of_int n" by simp
    then have "\<lfloor>y\<rfloor> < n" by (simp add: floor_less_iff)
    then show ?thesis by (simp add: round_even_def Let_def)
  qed
qed

lemma round_even_mono: assumes "x \<le> y" shows "round_even x \<le> round_even y"
proof (cases "\<lfloor>x\<rfloor> = \<lfloor>y\<rfloor>")
  case True
  then have "x - of_int \<lfloor>x\<rfloor> \<le> y - of_int \<lfloor>y\<rfloor>" using assms by simp
  then show ?thesis using True
    by (auto simp add: round_even_def Let_def)
next
  case False
  have "\<lfloor>x\<rfloor> \<le> \<lfloor>y\<rfloor>" using assms by (rule floor_mono)
  with False have "\<lfloor>x\<rfloor> + 1 \<le> \<lfloor>y\<rfloor>" by simp
  moreover have "round_even x \<le> \<lfloor>x\<rfloor> + 1" by (simp add: round_even_def Let_def)
  moreover have "\<lfloor>y\<rfloor> \<le> round_even y" by (simp add: round_even_def Let_def)
  ultimately show ?thesis by linarith
qed

lemma quantum_pos: "0 < quantum x"
  by (simp add: quantum_def zero_less_power_int)

lemma quantum_minus [simp]: "quantum (- x) = quantum x"
  by (simp add: quantum_def)

lemma fl64_zero [simp]: "fl64 0 = 0"
  by (simp add: fl64_def)

lemma fl64_minus: "fl64 (- x) = - fl64 x"
  by (simp add: fl64_def sgn_minus)

lemma fl64_pos: "0 < x \<Longrightarrow> fl64 x = of_int (round_even (x / quantum x)) * quantum x"
  by (simp add: fl64_def)

lemma fl64_nonneg: assumes "0 \<le> x" shows "0 \<le> fl64 x"
proof (cases "x = 0")
  case True then show ?thesis by simp
next
  case False
  with assms have x: "0 < x" by simp
  have "0 \<le> x / quantum x" using x quantum_pos [of x] by simp
  then have "0 \<le> round_even (x / quantum x)"
    using round_even_ge [of 0 "x / quantum x"] by simp
  then show ?thesis using quantum_pos [of x] by (simp add: fl64_pos [OF x])
qed


lemma quantum_bexp: "quantum x = 2 powi (bexp x - 52)"
  by (simp add: quantum_def bexp_def)

lemma bexp_upper: assumes "0 < x" shows "x < 2 powi (bexp x + 1)"
proof -
  have "x < 2 powi (ilog2 x + 1)" using assms by (rule ilog2_upper)
  also have "\<dots> \<le> 2 powi (bexp x + 1)" using assms
    by (intro power_int_increasing) (simp_all add: bexp_def)
  finally show ?thesis .
qed

lemma bexp_mono: assumes "0 < x" "x \<le> y" shows "bexp x \<le> bexp y"
proof -
  have "2 powi (ilog2 x) \<le> x" using assms by (simp add: ilog2_lower)
  also have "x \<le> y" by fact
  also have "y < 2 powi (ilog2 y + 1)" using assms by (simp add: ilog2_upper)
  finally have "(2::rat) powi (ilog2 x) < 2 powi (ilog2 y + 1)" .
  then have "ilog2 x < ilog2 y + 1"
    by (metis not_le power_int_increasing one_le_numeral linorder_not_less)
  then show ?thesis using assms by (simp add: bexp_def)
qed

lemma powi_split: "(2::rat) powi (a + b) = 2 powi a * 2 powi b"
  by (simp add: power_int_add)

lemma pow53: "of_int (2 ^ 53) * (2::rat) powi (e - 52) = 2 powi (e + 1)"
proof -
  have "e + 1 = 53 + (e - 52)" by simp
  then have "(2::rat) powi (e + 1) = 2 powi (53 + (e - 52))" by (rule arg_cong)
  also have "\<dots> = 2 powi 53 * 2 powi (e - 52)" by (rule powi_split)
  also have "(2::rat) powi 53 = of_int (2 ^ 53)" by simp
  finally show ?thesis by simp
qed

lemma pow52: "of_int (2 ^ 52) * (2::rat) powi (e - 52) = 2 powi e"
proof -
  have "e = 52 + (e - 52)" by simp
  then have "(2::rat) powi e = 2 powi (52 + (e - 52))" by (rule arg_cong)
  also have "\<dots> = 2 powi 52 * 2 powi (e - 52)" by (rule powi_split)
  also have "(2::rat) powi 52 = of_int (2 ^ 52)" by simp
  finally show ?thesis by simp
qed

lemma fl64_le_pow: assumes "0 < x" shows "fl64 x \<le> 2 powi (bexp x + 1)"
proof -
  have q: "0 < quantum x" by (rule quantum_pos)
  have "x / quantum x \<le> 2 powi (bexp x + 1) / quantum x"
    using bexp_upper [OF assms] q by (simp add: divide_right_mono)
  also have "2 powi (bexp x + 1) / quantum x = (2::rat) powi 53"
    by (simp add: quantum_bexp flip: power_int_diff)
  finally have "x / quantum x \<le> of_int (2 ^ 53)" by simp
  then have "round_even (x / quantum x) \<le> 2 ^ 53" by (rule round_even_le)
  then have "(of_int (round_even (x / quantum x)) :: rat) \<le> of_int (2 ^ 53)"
    by (simp only: of_int_le_iff)
  then have "fl64 x \<le> of_int (2 ^ 53) * quantum x"
    using q by (simp add: fl64_pos [OF assms])
  also have "\<dots> = 2 powi (bexp x + 1)" unfolding quantum_bexp by (rule pow53)
  finally show ?thesis .
qed

lemma fl64_ge_pow: assumes "0 < x" "- 1022 \<le> ilog2 x" shows "2 powi (bexp x) \<le> fl64 x"
proof -
  have q: "0 < quantum x" by (rule quantum_pos)
  have e: "bexp x = ilog2 x" using assms by (simp add: bexp_def)
  have "2 powi (bexp x) \<le> x" using ilog2_lower [OF assms(1)] e by simp
  then have "2 powi (bexp x) / quantum x \<le> x / quantum x"
    using q by (simp add: divide_right_mono)
  moreover have "2 powi (bexp x) / quantum x = (2::rat) powi 52"
    by (simp add: quantum_bexp flip: power_int_diff)
  ultimately have "of_int (2 ^ 52) \<le> x / quantum x" by simp
  then have "2 ^ 52 \<le> round_even (x / quantum x)" by (rule round_even_ge)
  then have "(of_int (2 ^ 52) :: rat) \<le> of_int (round_even (x / quantum x))"
    by (simp only: of_int_le_iff)
  then have "of_int (2 ^ 52) * quantum x \<le> fl64 x"
    using q by (simp add: fl64_pos [OF assms(1)])
  moreover have "of_int (2 ^ 52) * quantum x = 2 powi (bexp x)"
    unfolding quantum_bexp by (rule pow52)
  ultimately show ?thesis by simp
qed

lemma fl64_mono_pos: assumes "0 < x" "x \<le> y" shows "fl64 x \<le> fl64 y"
proof (cases "bexp x = bexp y")
  case True
  then have q: "quantum x = quantum y" by (simp add: quantum_bexp)
  have "x / quantum y \<le> y / quantum y"
    using assms quantum_pos [of y] by (simp add: divide_right_mono)
  then have "round_even (x / quantum y) \<le> round_even (y / quantum y)"
    by (rule round_even_mono)
  then have "(of_int (round_even (x / quantum y)) :: rat) \<le> of_int (round_even (y / quantum y))"
    by (simp only: of_int_le_iff)
  then show ?thesis using assms quantum_pos [of y] q
    by (simp add: fl64_pos)
next
  case False
  have y: "0 < y" using assms by simp
  have le: "bexp x \<le> bexp y" using assms by (rule bexp_mono)
  with False have lt: "bexp x + 1 \<le> bexp y" by simp
  have "- 1022 \<le> bexp x" by (simp add: bexp_def)
  with lt have "- 1022 < bexp y" by simp
  then have ly: "- 1022 \<le> ilog2 y" using y by (simp add: bexp_def)
  have "fl64 x \<le> 2 powi (bexp x + 1)" using assms(1) by (rule fl64_le_pow)
  also have "\<dots> \<le> 2 powi (bexp y)" using lt by (intro power_int_increasing) simp_all
  also have "\<dots> \<le> fl64 y" using y ly by (rule fl64_ge_pow)
  finally show ?thesis .
qed

lemma fl64_mono: assumes "x \<le> y" shows "fl64 x \<le> fl64 y"
proof -
  consider "0 < x" | "x \<le> 0" "0 \<le> y" | "y < 0" by linarith
  then show ?thesis
  proof cases
    case 1 then show ?thesis using assms by (rule fl64_mono_pos)
  next
    case 2
    have "0 \<le> fl64 (- x)" using 2 by (intro fl64_nonneg) simp
    then have "fl64 x \<le> 0" by (simp add: fl64_minus)
    also have "0 \<le> fl64 y" using 2 by (intro fl64_nonneg)
    finally show ?thesis .
  next
    case 3
    have "fl64 (- y) \<le> fl64 (- x)" using 3 assms by (intro fl64_mono_pos) simp_all
    then show ?thesis by (simp add: fl64_minus)
  qed
qed

lemma powi_less_imp_less: assumes "(2::rat) powi a < 2 powi b" shows "a < b"
proof (rule ccontr)
  assume "\<not> a < b"
  then have "b \<le> a" by simp
  then have "(2::rat) powi b \<le> 2 powi a" by (intro power_int_increasing) simp_all
  with assms show False by simp
qed

lemma pow53': "of_int (2 ^ 53) * (2::rat) powi k = 2 powi (k + 53)"
proof -
  have "k + 53 = 53 + k" by simp
  then have "(2::rat) powi (k + 53) = 2 powi (53 + k)" by (rule arg_cong)
  also have "\<dots> = 2 powi 53 * 2 powi k" by (rule powi_split)
  also have "(2::rat) powi 53 = of_int (2 ^ 53)" by simp
  finally show ?thesis by simp
qed

lemma pow52': "of_int (2 ^ 52) * (2::rat) powi (k + 1) = 2 powi (k + 53)"
proof -
  have "k + 53 = 52 + (k + 1)" by simp
  then have "(2::rat) powi (k + 53) = 2 powi (52 + (k + 1))" by (rule arg_cong)
  also have "\<dots> = 2 powi 52 * 2 powi (k + 1)" by (rule powi_split)
  also have "(2::rat) powi 52 = of_int (2 ^ 52)" by simp
  finally show ?thesis by simp
qed

lemma fl64_exact_pos_lt:
  assumes m: "0 < m" "m < 2 ^ 53" and k: "- 1074 \<le> k"
  shows "fl64 (of_int m * 2 powi k) = of_int m * 2 powi k"
proof -
  define x :: rat where "x = of_int m * 2 powi k"
  have p: "(0::rat) < 2 powi k" by (simp add: zero_less_power_int)
  have x: "0 < x" using m p by (simp add: x_def)
  have "of_int m < (of_int (2 ^ 53) :: rat)" using m by (simp only: of_int_less_iff)
  then have "x < of_int (2 ^ 53) * 2 powi k" using p by (simp add: x_def)
  also have "\<dots> = 2 powi (k + 53)" by (rule pow53')
  finally have "x < 2 powi (k + 53)" .
  with ilog2_lower [OF x] have "(2::rat) powi (ilog2 x) < 2 powi (k + 53)" by simp
  then have "ilog2 x < k + 53" by (rule powi_less_imp_less)
  then have b: "bexp x \<le> k + 52" using k x by (simp add: bexp_def)
  define d where "d = nat (k + 52 - bexp x)"
  define q where "q = quantum x"
  have q: "0 < q" unfolding q_def by (rule quantum_pos)
  have kd: "k = (bexp x - 52) + int d" using b by (simp add: d_def)
  have "(2::rat) powi k = 2 powi (bexp x - 52) * 2 powi (int d)"
    by (subst kd) (rule powi_split)
  then have pk: "(2::rat) powi k = q * 2 ^ d" by (simp add: quantum_bexp q_def)
  have "x / q = of_int m * 2 powi k / q" by (simp add: x_def)
  also have "\<dots> = of_int m * (q * 2 ^ d) / q" by (simp only: pk)
  also have "\<dots> = of_int m * 2 ^ d" using q by simp
  finally have xq: "x / q = of_int (m * 2 ^ d)" by simp
  have "fl64 x = of_int (round_even (x / q)) * q" unfolding q_def using x by (rule fl64_pos)
  also have "\<dots> = (x / q) * q" unfolding xq round_even_of_int ..
  also have "\<dots> = x" using q by simp
  finally show ?thesis by (simp add: x_def)
qed

lemma fl64_exact_pos:
  assumes m: "0 < m" "m \<le> 2 ^ 53" and k: "- 1074 \<le> k"
  shows "fl64 (of_int m * 2 powi k) = of_int m * 2 powi k"
proof (cases "m = 2 ^ 53")
  case False
  with m have "m < 2 ^ 53" by simp
  with m(1) show ?thesis using k by (rule fl64_exact_pos_lt)
next
  case True
  have "of_int m * (2::rat) powi k = of_int (2 ^ 53) * 2 powi k"
    using True by simp
  also have "\<dots> = 2 powi (k + 53)" by (rule pow53')
  also have "\<dots> = of_int (2 ^ 52) * 2 powi (k + 1)" by (rule pow52' [symmetric])
  finally have e: "of_int m * (2::rat) powi k = of_int (2 ^ 52) * 2 powi (k + 1)" .
  have "fl64 (of_int (2 ^ 52) * 2 powi (k + 1)) = of_int (2 ^ 52) * 2 powi (k + 1)"
    using k by (intro fl64_exact_pos_lt) simp_all
  then show ?thesis unfolding e .
qed

lemma fl64_exact:
  assumes m: "\<bar>m\<bar> \<le> 2 ^ 53" and k: "- 1074 \<le> k"
  shows "fl64 (of_int m * 2 powi k) = of_int m * 2 powi k"
proof -
  consider "m = 0" | "0 < m" | "m < 0" by linarith
  then show ?thesis
  proof cases
    case 1 then show ?thesis by simp
  next
    case 2 then show ?thesis using m k by (intro fl64_exact_pos) simp_all
  next
    case 3
    then have "fl64 (of_int (- m) * 2 powi k) = of_int (- m) * 2 powi k"
      using m k by (intro fl64_exact_pos) simp_all
    then have "fl64 (- (of_int m * 2 powi k)) = - (of_int m * 2 powi k)" by simp
    then show ?thesis by (simp add: fl64_minus)
  qed
qed

lemma fl64_of_int: "\<bar>n\<bar> \<le> 2 ^ 53 \<Longrightarrow> fl64 (of_int n) = of_int n"
  using fl64_exact [of n 0] by simp

lemma float64_exact: "\<bar>n\<bar> \<le> 2 ^ 53 \<Longrightarrow> float64 n = of_int n"
  by (simp add: float64_def fl64_of_int)

lemma fl64_repr_pos:
  assumes "0 < x"
  shows "\<exists>m k. fl64 x = of_int m * 2 powi k \<and> 0 \<le> m \<and> m \<le> 2 ^ 53 \<and> - 1074 \<le> k"
proof -
  have q: "0 < quantum x" by (rule quantum_pos)
  have "x / quantum x \<le> 2 powi (bexp x + 1) / quantum x"
    using bexp_upper [OF assms] q by (simp add: divide_right_mono)
  also have "2 powi (bexp x + 1) / quantum x = (2::rat) powi 53"
    by (simp add: quantum_bexp flip: power_int_diff)
  finally have "x / quantum x \<le> of_int (2 ^ 53)" by simp
  then have a: "round_even (x / quantum x) \<le> 2 ^ 53" by (rule round_even_le)
  have "of_int 0 \<le> x / quantum x" using assms q by simp
  then have b: "0 \<le> round_even (x / quantum x)" by (rule round_even_ge)
  have c: "- 1074 \<le> bexp x - 52" by (simp add: bexp_def)
  have "fl64 x = of_int (round_even (x / quantum x)) * 2 powi (bexp x - 52)"
    using assms by (simp add: fl64_pos quantum_bexp)
  with a b c show ?thesis by blast
qed

lemma fl64_idem_nonneg: assumes "0 \<le> x" shows "fl64 (fl64 x) = fl64 x"
proof (cases "x = 0")
  case True then show ?thesis by simp
next
  case False
  with assms have "0 < x" by simp
  from fl64_repr_pos [OF this] obtain m k where
    "fl64 x = of_int m * 2 powi k" "0 \<le> m" "m \<le> 2 ^ 53" "- 1074 \<le> k" by blast
  then show ?thesis using fl64_exact [of m k] by simp
qed

lemma fl64_idem [simp]: "fl64 (fl64 x) = fl64 x"
proof (cases "0 \<le> x")
  case True then show ?thesis by (rule fl64_idem_nonneg)
next
  case False
  then have "fl64 (fl64 (- x)) = fl64 (- x)" by (intro fl64_idem_nonneg) simp
  then show ?thesis by (simp add: fl64_minus)
qed

lemma fl64_floor:
  assumes "0 \<le> x"
  shows "fl64 (of_int \<lfloor>fl64 x\<rfloor>) = of_int \<lfloor>fl64 x\<rfloor>"
proof (cases "x = 0")
  case True then show ?thesis by simp
next
  case False
  with assms have "0 < x" by simp
  from fl64_repr_pos [OF this] obtain m k where
    r: "fl64 x = of_int m * 2 powi k" and m: "0 \<le> m" "m \<le> 2 ^ 53" and k: "- 1074 \<le> k"
    by blast
  show ?thesis
  proof (cases "0 \<le> k")
    case True
    then have "fl64 x = of_int (m * 2 ^ nat k)" using r by (simp add: power_int_def)
    then have "of_int \<lfloor>fl64 x\<rfloor> = fl64 x" by simp
    then show ?thesis by (simp only: fl64_idem)
  next
    case False
    then have "(2::rat) powi k \<le> 2 powi 0" by (intro power_int_increasing) simp_all
    then have "(2::rat) powi k \<le> 1" by simp
    then have "of_int m * (2::rat) powi k \<le> of_int m * 1"
      using m by (intro mult_left_mono) simp_all
    then have "fl64 x \<le> of_int m" using r by simp
    then have "\<lfloor>fl64 x\<rfloor> \<le> m" by (simp add: floor_le_iff)
    moreover have "0 \<le> \<lfloor>fl64 x\<rfloor>" using fl64_nonneg [OF assms] by simp
    ultimately have "\<bar>\<lfloor>fl64 x\<rfloor>\<bar> \<le> 2 ^ 53" using m by linarith
    then show ?thesis by (rule fl64_of_int)
  qed
qed

lemma fl64_one [simp]: "fl64 1 = 1"
  using fl64_of_int [of 1] by simp

lemma fl64_le_of_int: "x \<le> of_int n \<Longrightarrow> \<bar>n\<bar> \<le> 2 ^ 53 \<Longrightarrow> fl64 x \<le> of_int n"
  using fl64_mono [of x "of_int n"] by (simp add: fl64_of_int)

lemma fl64_ge_of_int: "of_int n \<le> x \<Longrightarrow> \<bar>n\<bar> \<le> 2 ^ 53 \<Longrightarrow> of_int n \<le> fl64 x"
  using fl64_mono [of "of_int n" x] by (simp add: fl64_of_int)

lemma ByteCount_of_of_int:
  "- (2 ^ 63) \<le> n \<Longrightarrow> n < 2 ^ 63 \<Longrightarrow> ByteCount_of (of_int n) = n"
  by (simp add: ByteCount_of_def Let_def)

lemma ByteCount_of_nonneg:
  assumes "0 \<le> x" "x < 2 ^ 63" shows "ByteCount_of x = \<lfloor>x\<rfloor>"
proof -
  have "0 \<le> \<lfloor>x\<rfloor>" using assms by simp
  moreover have "\<lfloor>x\<rfloor> < 2 ^ 63" using assms by (simp add: floor_less_iff)
  ultimately show ?thesis using assms by (simp add: ByteCount_of_def Let_def)
qed

subsection \<open>The loss response in exact arithmetic\<close>

lemma i64_id: "- (2 ^ 63) \<le> x \<Longrightarrow> x < 2 ^ 63 \<Longrightarrow> i64 x = x"
  by (simp add: i64_def)

lemma fl64_half_of_int:
  assumes "\<bar>n\<bar> \<le> 2 ^ 53" shows "fl64 (of_int n * (1 / 2)) = of_int n / 2"
proof -
  have "(2::rat) powi (- 1) = 1 / 2" by (simp add: power_int_minus_divide)
  then show ?thesis using fl64_exact [of n "- 1"] assms by simp
qed

lemma ByteCount_of_half:
  assumes "0 \<le> n" "n < 2 ^ 63" shows "ByteCount_of (of_int n / 2) = n div 2"
proof -
  have "\<lfloor>(of_int n :: rat) / 2\<rfloor> = n div 2"
    using floor_divide_of_int_eq [of n 2, where ?'a = rat] by simp
  moreover have "(0::rat) \<le> of_int n / 2" using assms by simp
  moreover have "(of_int n :: rat) / 2 < 2 ^ 63"
  proof -
    have "(of_int n :: rat) < of_int (2 ^ 63)" using assms by (simp only: of_int_less_iff)
    then show ?thesis by simp
  qed
  ultimately show ?thesis by (simp add: ByteCount_of_nonneg)
qed

lemma OnCongestionEvent_ignored:
  "number \<le> largestSentAtLastCutback p \<Longrightarrow> OnCongestionEvent number lost prior p = p"
  by (simp add: OnCongestionEvent_def)

lemma OnCongestionEvent_cut:
  assumes n: "largestSentAtLastCutback p < number"
    and c: "0 \<le> congestionWindow p" "congestionWindow p < 2 ^ 53"
    and m: "0 \<le> maxDatagramSize p" "maxDatagramSize p < 2 ^ 52"
  shows "OnCongestionEvent number lost prior p =
           p\<lparr>lastCutbackExitedSlowstart := inSlowStart p,
             inSlowStart := False,
             inRecovery := True,
             largestSentAtLastCutback := largestSentPacketNumber p,
             slowStartThreshold := congestionWindow p div 2,
             congestionWindow := max (2 * maxDatagramSize p) (congestionWindow p div 2)\<rparr>"
proof -
  let ?w = "congestionWindow p" and ?m = "maxDatagramSize p"
  have f1: "float64 ?w = of_int ?w" using c by (intro float64_exact) simp
  have f2: "fl64 (of_int ?w * pragueBeta) = of_int ?w / 2"
    unfolding pragueBeta_def using c by (intro fl64_half_of_int) simp
  have f3: "ByteCount_of (of_int ?w / 2) = ?w div 2" using c by (intro ByteCount_of_half) simp_all
  have h: "0 \<le> ?w div 2" "?w div 2 < 2 ^ 53" using c by simp_all
  have f4: "float64 (?w div 2) = of_int (?w div 2)" using h by (intro float64_exact) simp
  have f5: "i64 (2 * ?m) = 2 * ?m" using m by (intro i64_id) simp_all
  have f6: "float64 (2 * ?m) = of_int (2 * ?m)" using m by (intro float64_exact) simp
  have f7: "max (of_int (2 * ?m) :: rat) (of_int (?w div 2)) = of_int (max (2 * ?m) (?w div 2))"
    by (simp add: max_def)
  have f8: "ByteCount_of (of_int (max (2 * ?m) (?w div 2))) = max (2 * ?m) (?w div 2)"
    using m h by (intro ByteCount_of_of_int) simp_all
  have g: "ByteCount_of (max (float64 (i64 (2 * ?m))) (float64 (?w div 2)))
             = max (2 * ?m) (?w div 2)"
    by (simp only: f4 f5 f6 f7 f8)
  show ?thesis using n
    by (simp add: OnCongestionEvent_def Let_def minCongestionWindow_def pragueMinCwnd_def
                  f1 f2 f3 g)
qed

section \<open>Facts about single operations\<close>

subsection \<open>Fields that operations leave alone\<close>

lemma OnECNFeedback_without_l4s: "\<not> l4sEnabled p \<Longrightarrow> OnECNFeedback x p = p"
  by (simp add: OnECNFeedback_def)

lemma l4sEnabled_updateAlpha [simp]: "l4sEnabled (updateAlpha p) = l4sEnabled p"
  by (simp add: updateAlpha_def Let_def)

lemma l4sEnabled_applyECN [simp]: "l4sEnabled (applyECNCongestionResponse p) = l4sEnabled p"
  by (simp add: applyECNCongestionResponse_def Let_def)

lemma l4sEnabled_MaybeExitSlowStart [simp]: "l4sEnabled (MaybeExitSlowStart p) = l4sEnabled p"
  by (simp add: MaybeExitSlowStart_def)

lemma l4sEnabled_pragueAdditiveIncrease [simp]:
  "l4sEnabled (pragueAdditiveIncrease a p) = l4sEnabled p"
  by (simp add: pragueAdditiveIncrease_def Let_def)

lemma l4sEnabled_OnPacketSent: "l4sEnabled (OnPacketSent sp t f n b r p) = l4sEnabled p"
  by (simp add: OnPacketSent_def Let_def)

lemma l4sEnabled_OnPacketAcked: "l4sEnabled (OnPacketAcked n a f t p) = l4sEnabled p"
  by (simp add: OnPacketAcked_def Let_def)

lemma l4sEnabled_OnCongestionEvent: "l4sEnabled (OnCongestionEvent n l f p) = l4sEnabled p"
  by (simp add: OnCongestionEvent_def Let_def)

lemma l4sEnabled_OnRetransmissionTimeout:
  "l4sEnabled (OnRetransmissionTimeout ipn r p) = l4sEnabled p"
  by (simp add: OnRetransmissionTimeout_def Let_def)

lemma l4sEnabled_OnECNFeedback: "l4sEnabled (OnECNFeedback e p) = l4sEnabled p"
  by (simp add: OnECNFeedback_def Let_def)

lemma l4sEnabled_SetMaxDatagramSize:
  "SetMaxDatagramSize m p = Inr p' \<Longrightarrow> l4sEnabled p' = l4sEnabled p"
  by (auto simp: SetMaxDatagramSize_def Let_def split: if_splits)

lemma l4sEnabled_step: "step ipn sp x p = Inr p' \<Longrightarrow> l4sEnabled p' = l4sEnabled p"
  by (cases x)
     (auto simp: l4sEnabled_OnPacketSent l4sEnabled_OnPacketAcked l4sEnabled_OnCongestionEvent
                 l4sEnabled_OnRetransmissionTimeout l4sEnabled_OnECNFeedback
           dest: l4sEnabled_SetMaxDatagramSize)

lemma l4sEnabled_run: "run ipn sp xs p = Inr p' \<Longrightarrow> l4sEnabled p' = l4sEnabled p"
proof (induction xs arbitrary: p)
  case Nil
  then show ?case by simp
next
  case (Cons x xs)
  then obtain q where q: "step ipn sp x p = Inr q" and r: "run ipn sp xs q = Inr p'"
    by (auto split: sum.splits)
  from Cons.IH [OF r] l4sEnabled_step [OF q] show ?case by simp
qed

lemma inSlowStart_updateAlpha [simp]: "inSlowStart (updateAlpha p) = inSlowStart p"
  by (simp add: updateAlpha_def Let_def)

lemma inSlowStart_applyECN: "inSlowStart (applyECNCongestionResponse p) \<Longrightarrow> inSlowStart p"
  by (simp add: applyECNCongestionResponse_def Let_def split: if_splits)

lemma inSlowStart_MaybeExitSlowStart:
  "inSlowStart (MaybeExitSlowStart p) \<Longrightarrow> inSlowStart p"
  by (simp add: MaybeExitSlowStart_def split: if_splits)

lemma inSlowStart_pragueAdditiveIncrease [simp]:
  "inSlowStart (pragueAdditiveIncrease a p) = inSlowStart p"
  by (simp add: pragueAdditiveIncrease_def Let_def)

lemma inSlowStart_OnPacketSent: "inSlowStart (OnPacketSent sp t f n b r p) = inSlowStart p"
  by (simp add: OnPacketSent_def Let_def)

lemma inSlowStart_OnPacketAcked: "inSlowStart (OnPacketAcked n a f t p) \<Longrightarrow> inSlowStart p"
  by (simp add: OnPacketAcked_def Let_def split: if_splits)

lemma inSlowStart_OnCongestionEvent:
  "inSlowStart (OnCongestionEvent n l f p) \<Longrightarrow> inSlowStart p"
  by (simp add: OnCongestionEvent_def Let_def split: if_splits)

lemma not_inSlowStart_OnRetransmissionTimeout:
  "\<not> inSlowStart (OnRetransmissionTimeout ipn r p)"
  by (simp add: OnRetransmissionTimeout_def Let_def)

lemma inSlowStart_OnECNFeedback: "inSlowStart (OnECNFeedback e p) \<Longrightarrow> inSlowStart p"
proof (cases "l4sEnabled p \<and> 0 < totalAckedBytes p")
  case True
  define q where "q = p\<lparr>ecnMarkedBytes := i64 (ecnMarkedBytes p + e)\<rparr>"
  assume "inSlowStart (OnECNFeedback e p)"
  with True have "inSlowStart (applyECNCongestionResponse (updateAlpha q))"
    by (simp add: OnECNFeedback_def Let_def q_def)
  then have "inSlowStart (updateAlpha q)"
    by (rule inSlowStart_applyECN)
  then show ?thesis
    by (simp add: q_def)
next
  case False
  assume "inSlowStart (OnECNFeedback e p)"
  with False show ?thesis
    by (auto simp: OnECNFeedback_def Let_def split: if_splits)
qed

lemma inSlowStart_SetMaxDatagramSize:
  "SetMaxDatagramSize m p = Inr p' \<Longrightarrow> inSlowStart p' = inSlowStart p"
  by (auto simp: SetMaxDatagramSize_def Let_def split: if_splits)

lemma inSlowStart_step:
  assumes "step ipn sp x p = Inr p'" and "inSlowStart p'"
  shows "inSlowStart p"
  using assms
  by (cases x)
     (auto simp: inSlowStart_OnPacketSent not_inSlowStart_OnRetransmissionTimeout
           dest: inSlowStart_OnPacketAcked inSlowStart_OnCongestionEvent
                 inSlowStart_OnECNFeedback inSlowStart_SetMaxDatagramSize
                 inSlowStart_MaybeExitSlowStart)

lemma inSlowStart_run: "run ipn sp xs p = Inr p' \<Longrightarrow> inSlowStart p' \<Longrightarrow> inSlowStart p"
proof (induction xs arbitrary: p)
  case Nil
  then show ?case by simp
next
  case (Cons x xs)
  then obtain q where q: "step ipn sp x p = Inr q" and r: "run ipn sp xs q = Inr p'"
    by (auto split: sum.splits)
  from Cons.IH [OF r Cons.prems(2)] have "inSlowStart q" .
  with q show ?case by (rule inSlowStart_step)
qed

lemma inRecovery_MaybeExitSlowStart [simp]: "inRecovery (MaybeExitSlowStart p) = inRecovery p"
  by (simp add: MaybeExitSlowStart_def)

lemma inRecovery_pragueAdditiveIncrease [simp]:
  "inRecovery (pragueAdditiveIncrease a p) = inRecovery p"
  by (simp add: pragueAdditiveIncrease_def Let_def)

lemma inRecovery_OnPacketAcked: "inRecovery (OnPacketAcked n a f t p) = inRecovery p"
  by (simp add: OnPacketAcked_def Let_def)

text \<open>No operation clears \<open>inRecovery\<close>: once set, the flag stays set for the whole run.\<close>

lemma inRecovery_step:
  assumes "step ipn sp x p = Inr p'" and "inRecovery p"
  shows "inRecovery p'"
proof (cases x)
  case (PacketSent t f n b r)
  with assms show ?thesis by (auto simp: OnPacketSent_def Let_def)
next
  case (PacketAcked n a f t)
  with assms show ?thesis by (auto simp: inRecovery_OnPacketAcked)
next
  case (CongestionEvent n l f)
  with assms show ?thesis by (auto simp: OnCongestionEvent_def Let_def)
next
  case (RetransmissionTimeout r)
  with assms show ?thesis by (auto simp: OnRetransmissionTimeout_def Let_def)
next
  case (MaxDatagramSize m)
  with assms show ?thesis by (auto simp: SetMaxDatagramSize_def Let_def split: if_splits)
next
  case (ECNFeedback e)
  have "inRecovery (applyECNCongestionResponse q) = inRecovery q" for q :: "'a pragueSender"
    by (simp add: applyECNCongestionResponse_def Let_def)
  moreover have "inRecovery (updateAlpha q) = inRecovery q" for q :: "'a pragueSender"
    by (simp add: updateAlpha_def Let_def)
  ultimately have "inRecovery (OnECNFeedback e p) = inRecovery p"
    by (simp add: OnECNFeedback_def Let_def)
  with assms ECNFeedback show ?thesis by auto
next
  case ExitSlowStartCheck
  with assms show ?thesis by auto
qed

lemma inRecovery_run: "run ipn sp xs p = Inr p' \<Longrightarrow> inRecovery p \<Longrightarrow> inRecovery p'"
proof (induction xs arbitrary: p)
  case Nil
  then show ?case by simp
next
  case (Cons x xs)
  then obtain q where q: "step ipn sp x p = Inr q" and r: "run ipn sp xs q = Inr p'"
    by (auto split: sum.splits)
  from q Cons.prems(2) have "inRecovery q" by (rule inRecovery_step)
  with r show ?case by (rule Cons.IH)
qed

subsection \<open>The alpha update\<close>

lemma alpha_applyECN [simp]: "alpha (applyECNCongestionResponse p) = alpha p"
  by (simp add: applyECNCongestionResponse_def Let_def)

lemma alpha_OnECNFeedback:
  assumes "l4sEnabled p" "0 < totalAckedBytes p"
  shows "alpha (OnECNFeedback x p)
           = alpha (updateAlpha (p\<lparr>ecnMarkedBytes := i64 (ecnMarkedBytes p + x)\<rparr>))"
  using assms by (simp add: OnECNFeedback_def Let_def)

lemma fl64_15_16: "fl64 (15 / 16) = 15 / 16"
proof -
  have "(2::rat) powi (- 4) = 1 / 16" by (simp add: power_int_minus_divide)
  then show ?thesis using fl64_exact [of 15 "- 4"] by simp
qed

lemma clamp_unit: "(if (if a < 0 then 0 else a) > 1 then 1 else (if a < 0 then 0 else a))
                     = min 1 (max 0 (a::rat))"
  by (auto simp: min_def max_def)

lemma alpha_updateAlpha:
  assumes "totalAckedBytes p \<noteq> 0" "alphaGain p = pragueAlphaGain"
  shows "alpha (updateAlpha p) =
           min 1 (max 0
             (if alpha p = 0 \<and> 0 < fl64 (float64 (ecnMarkedBytes p) / float64 (totalAckedBytes p))
              then 1
              else fl64 (fl64 (15 / 16 * alpha p)
                         + fl64 (1 / 16 * fl64 (float64 (ecnMarkedBytes p)
                                                / float64 (totalAckedBytes p))))))"
proof -
  have g: "alphaGain p = 1 / 16"
    using assms(2) by (simp add: pragueAlphaGain_def)
  have "(1::rat) - 1 / 16 = 15 / 16" by simp
  then have k: "fl64 (1 - 1 / 16) = 15 / 16"
    using fl64_15_16 by (simp only:)
  have "alpha (updateAlpha p) =
          (let markingFraction = fl64 (float64 (ecnMarkedBytes p) / float64 (totalAckedBytes p));
               a1 = (if alpha p = 0 \<and> markingFraction > 0 then 1
                     else fl64 (fl64 (fl64 (1 - alphaGain p) * alpha p)
                                + fl64 (alphaGain p * markingFraction)));
               a2 = (if a1 < 0 then 0 else a1);
               a3 = (if a2 > 1 then 1 else a2)
           in a3)"
    using assms(1) by (simp add: updateAlpha_def Let_def)
  then show ?thesis
    unfolding Let_def g k clamp_unit .
qed

lemma alpha_steady_sample:
  "alpha (OnECNFeedback 1200
            ((newPragueSender (2 ^ 62 - 1) 524288 () 1200 True)
               \<lparr>alpha := 1, totalAckedBytes := 12000\<rparr>))
   = 8500544296661811 / 9007199254740992"
  by code_simp

lemma fl64_151_160: "fl64 (151 / 160) = 8500544296661811 / 9007199254740992"
  by code_simp


section \<open>The window floor is kept by every operation\<close>

lemma fl64_le_exact:
  "x \<le> of_int m * 2 powi k \<Longrightarrow> \<bar>m\<bar> \<le> 2 ^ 53 \<Longrightarrow> - 1074 \<le> k \<Longrightarrow> fl64 x \<le> of_int m * 2 powi k"
  using fl64_mono [of x "of_int m * 2 powi k"] by (simp add: fl64_exact)

lemma cwnd_max_exact: "(of_int cwnd_max :: rat) = of_int (2 ^ 30 + 1) * 2 powi 32"
  by (simp add: cwnd_max_def)

lemma fl64_le_cwnd_max: assumes "x \<le> of_int cwnd_max" shows "fl64 x \<le> of_int cwnd_max"
proof -
  have "fl64 x \<le> of_int (2 ^ 30 + 1) * 2 powi 32"
    using assms unfolding cwnd_max_exact by (rule fl64_le_exact) simp_all
  then show ?thesis unfolding cwnd_max_exact .
qed

lemma float64_mono: "a \<le> b \<Longrightarrow> float64 a \<le> float64 b"
  unfolding float64_def by (rule fl64_mono) simp

lemma float64_nonneg: "0 \<le> n \<Longrightarrow> 0 \<le> float64 n"
  unfolding float64_def by (rule fl64_nonneg) simp

lemma float64_le_cwnd_max: "n \<le> cwnd_max \<Longrightarrow> float64 n \<le> of_int cwnd_max"
  unfolding float64_def by (rule fl64_le_cwnd_max) simp

lemma float64_ge: "a \<le> n \<Longrightarrow> \<bar>a\<bar> \<le> 2 ^ 53 \<Longrightarrow> of_int a \<le> float64 n"
  unfolding float64_def by (rule fl64_ge_of_int) simp_all

lemma float64_idem [simp]: "fl64 (float64 n) = float64 n"
  by (simp add: float64_def)

lemma ByteCount_of_bounds:
  assumes "of_int a \<le> x" "x \<le> of_int b" "0 \<le> a" "b < 2 ^ 63"
  shows "a \<le> ByteCount_of x" "ByteCount_of x \<le> b"
proof -
  have x0: "0 \<le> x" using assms by (meson of_int_0_le_iff order_trans)
  have "x \<le> of_int b" by fact
  also have "(of_int b :: rat) < of_int (2 ^ 63)" using assms by (simp only: of_int_less_iff)
  finally have x1: "x < 2 ^ 63" by simp
  have e: "ByteCount_of x = \<lfloor>x\<rfloor>" using x0 x1 by (rule ByteCount_of_nonneg)
  show "a \<le> ByteCount_of x" unfolding e using assms(1) by (simp add: le_floor_iff)
  show "ByteCount_of x \<le> b" unfolding e using assms(2) by (simp add: floor_le_iff)
qed

lemma sender_inv_new:
  assumes "0 < mds" "mds \<le> 2 ^ 40" "2 ^ 45 < M" "M \<le> 2 ^ 62" "D \<le> 2 ^ 62"
  shows "sender_inv M (newPragueSender M D pc mds l4s)"
proof -
  have "i64 (32 * mds) = 32 * mds" using assms by (intro i64_id) simp_all
  then show ?thesis using assms
    by (simp add: sender_inv_def newPragueSender_def pragueInitialCwnd_def cwnd_max_def)
qed

lemma sender_inv_OnPacketSent:
  "sender_inv M p \<Longrightarrow> sender_inv M (OnPacketSent sp t f n b r p)"
  by (simp add: sender_inv_def OnPacketSent_def Let_def)

lemma sender_inv_MaybeExitSlowStart:
  "sender_inv M p \<Longrightarrow> sender_inv M (MaybeExitSlowStart p)"
  by (simp add: sender_inv_def MaybeExitSlowStart_def)

lemma minCongestionWindow_eq:
  assumes "0 < maxDatagramSize p" "maxDatagramSize p \<le> 2 ^ 40"
  shows "minCongestionWindow p = 2 * maxDatagramSize p"
  unfolding minCongestionWindow_def pragueMinCwnd_def using assms by (intro i64_id) simp_all

lemma sender_inv_OnRetransmissionTimeout:
  assumes "sender_inv M p"
  shows "sender_inv M (OnRetransmissionTimeout ipn r p)"
proof -
  have m: "0 < maxDatagramSize p" "maxDatagramSize p \<le> 2 ^ 40"
    using assms by (simp_all add: sender_inv_def)
  have "minCongestionWindow (p\<lparr>largestSentAtLastCutback := ipn, inSlowStart := False,
          slowStartThreshold := s\<rparr>) = 2 * maxDatagramSize p" for s
    using m by (simp add: minCongestionWindow_eq)
  then show ?thesis using assms
    by (simp add: sender_inv_def OnRetransmissionTimeout_def Let_def cwnd_max_def)
qed

lemma sender_inv_SetMaxDatagramSize:
  assumes "sender_inv M p" and "SetMaxDatagramSize m p = Inr p'" and "m \<le> 2 ^ 40"
    and "congestionWindow p = minCongestionWindow p \<or> 2 * m \<le> congestionWindow p"
  shows "sender_inv M p'"
proof -
  have ge: "maxDatagramSize p \<le> m"
    using assms(2) by (simp add: SetMaxDatagramSize_def split: if_splits)
  have m: "0 < m" using assms(1) ge by (simp add: sender_inv_def)
  have e: "minCongestionWindow (p\<lparr>maxDatagramSize := m\<rparr>) = 2 * m"
    using m assms(3) by (simp add: minCongestionWindow_eq)
  show ?thesis
  proof (cases "congestionWindow p = minCongestionWindow p")
    case True
    then have "p' = p\<lparr>maxDatagramSize := m, congestionWindow := 2 * m\<rparr>"
      using assms(2) ge e by (simp add: SetMaxDatagramSize_def Let_def)
    then show ?thesis using assms(1,3) m
      by (simp add: sender_inv_def cwnd_max_def)
  next
    case False
    then have "p' = p\<lparr>maxDatagramSize := m\<rparr>"
      using assms(2) ge by (simp add: SetMaxDatagramSize_def Let_def)
    then show ?thesis using assms(1,3,4) m False
      by (simp add: sender_inv_def)
  qed
qed

lemma float64_cwnd_bounds:
  assumes "sender_inv M p"
  shows "of_int (2 * maxDatagramSize p) \<le> float64 (congestionWindow p)"
    and "float64 (congestionWindow p) \<le> of_int cwnd_max"
    and "0 < float64 (congestionWindow p)"
proof -
  have m: "0 < maxDatagramSize p" "maxDatagramSize p \<le> 2 ^ 40"
    and c: "2 * maxDatagramSize p \<le> congestionWindow p" "congestionWindow p \<le> cwnd_max"
    using assms by (simp_all add: sender_inv_def)
  show a: "of_int (2 * maxDatagramSize p) \<le> float64 (congestionWindow p)"
    using c(1) m by (intro float64_ge) simp_all
  show "float64 (congestionWindow p) \<le> of_int cwnd_max"
    using c(2) by (rule float64_le_cwnd_max)
  have "(0::rat) < of_int (2 * maxDatagramSize p)" using m by simp
  with a show "0 < float64 (congestionWindow p)" by linarith
qed

lemma float64_minCwnd:
  assumes "0 < maxDatagramSize p" "maxDatagramSize p \<le> 2 ^ 40"
  shows "float64 (minCongestionWindow p) = of_int (2 * maxDatagramSize p)"
  unfolding minCongestionWindow_eq [OF assms] using assms by (intro float64_exact) simp

lemma cwnd_max_half: "(of_int cwnd_max :: rat) / 2 = of_int (2 ^ 61 + 2 ^ 31)"
  by (simp add: cwnd_max_def)

lemma half_exact: "(of_int (2 ^ 61 + 2 ^ 31) :: rat) = of_int (2 ^ 30 + 1) * 2 powi 31"
  by simp

lemma sender_inv_OnCongestionEvent:
  assumes "sender_inv M p"
  shows "sender_inv M (OnCongestionEvent n l f p)"
proof (cases "n \<le> largestSentAtLastCutback p")
  case True
  then show ?thesis using assms by (simp add: OnCongestionEvent_def)
next
  case False
  let ?m = "maxDatagramSize p"
  define h :: int where "h = 2 ^ 61 + 2 ^ 31"
  have m: "0 < ?m" "?m \<le> 2 ^ 40" using assms by (simp_all add: sender_inv_def)
  define s where "s = ByteCount_of (fl64 (float64 (congestionWindow p) * pragueBeta))"
  note b = float64_cwnd_bounds [OF assms]
  have x0: "0 \<le> float64 (congestionWindow p) * pragueBeta"
    using b(3) by (simp add: pragueBeta_def)
  have "float64 (congestionWindow p) * pragueBeta \<le> of_int cwnd_max / 2"
    using b(2) by (simp add: pragueBeta_def)
  then have x1: "float64 (congestionWindow p) * pragueBeta \<le> of_int (2 ^ 30 + 1) * 2 powi 31"
    unfolding cwnd_max_half half_exact .
  have y0: "of_int 0 \<le> fl64 (float64 (congestionWindow p) * pragueBeta)"
    using fl64_nonneg [OF x0] by simp
  have "fl64 (float64 (congestionWindow p) * pragueBeta) \<le> of_int (2 ^ 30 + 1) * 2 powi 31"
    using x1 by (rule fl64_le_exact) simp_all
  then have y1: "fl64 (float64 (congestionWindow p) * pragueBeta) \<le> of_int h"
    unfolding h_def half_exact .
  have s: "0 \<le> s" "s \<le> h"
    unfolding s_def using ByteCount_of_bounds [OF y0 y1] by (simp_all add: h_def)
  have fs0: "0 \<le> float64 s" using s(1) by (rule float64_nonneg)
  have "fl64 (of_int s) \<le> of_int (2 ^ 30 + 1) * 2 powi 31"
  proof (rule fl64_le_exact)
    have "(of_int s :: rat) \<le> of_int h" using s(2) by (simp only: of_int_le_iff)
    then show "(of_int s :: rat) \<le> of_int (2 ^ 30 + 1) * 2 powi 31"
      unfolding h_def half_exact .
  qed simp_all
  then have fs1: "float64 s \<le> of_int h" unfolding float64_def h_def half_exact .
  define q where "q = p\<lparr>lastCutbackExitedSlowstart := inSlowStart p, inSlowStart := False,
     inRecovery := True, largestSentAtLastCutback := largestSentPacketNumber p,
     slowStartThreshold := s\<rparr>"
  have mq: "float64 (minCongestionWindow q) = of_int (2 * ?m)"
    using float64_minCwnd [of q] m by (simp add: q_def)
  define w where "w = ByteCount_of (max (float64 (minCongestionWindow q)) (float64 s))"
  have lo: "of_int (2 * ?m) \<le> max (float64 (minCongestionWindow q)) (float64 s)"
    unfolding mq by simp
  have "(of_int (2 * ?m) :: rat) \<le> of_int h" using m by (simp only: of_int_le_iff) (simp add: h_def)
  then have hi: "max (float64 (minCongestionWindow q)) (float64 s) \<le> of_int h"
    unfolding mq using fs1 by simp
  have w: "2 * ?m \<le> w" "w \<le> h"
    unfolding w_def using ByteCount_of_bounds [OF lo hi] m by (simp_all add: h_def)
  have "OnCongestionEvent n l f p = q\<lparr>congestionWindow := w\<rparr>"
    using False by (simp add: OnCongestionEvent_def Let_def q_def w_def s_def)
  then show ?thesis using assms w
    by (simp add: sender_inv_def q_def h_def cwnd_max_def)
qed

lemma unmarked_bounds:
  assumes al: "0 \<le> al" "al \<le> 1" and a: "0 \<le> a" "a \<le> 2 ^ 32"
  shows "0 \<le> ByteCount_of (fl64 (float64 a * fl64 (1 - al)))"
    and "ByteCount_of (fl64 (float64 a * fl64 (1 - al))) \<le> a"
proof -
  have fa: "float64 a = of_int a" using a by (intro float64_exact) simp
  have r0: "0 \<le> fl64 (1 - al)" using al by (intro fl64_nonneg) simp
  have r1: "fl64 (1 - al) \<le> of_int 1" using al by (intro fl64_le_of_int) simp_all
  have a0: "(0::rat) \<le> of_int a" using a by simp
  have x0: "0 \<le> of_int a * fl64 (1 - al)" using a0 r0 by simp
  have "of_int a * fl64 (1 - al) \<le> of_int a * 1"
    using a0 r1 by (intro mult_left_mono) simp_all
  then have x1: "of_int a * fl64 (1 - al) \<le> of_int a" by simp
  have y0: "of_int 0 \<le> fl64 (of_int a * fl64 (1 - al))" using fl64_nonneg [OF x0] by simp
  have y1: "fl64 (of_int a * fl64 (1 - al)) \<le> of_int a"
    using x1 a by (intro fl64_le_of_int) simp_all
  show "0 \<le> ByteCount_of (fl64 (float64 a * fl64 (1 - al)))"
    and "ByteCount_of (fl64 (float64 a * fl64 (1 - al))) \<le> a"
    unfolding fa using ByteCount_of_bounds [OF y0 y1] a by simp_all
qed

lemma increase_bounds:
  assumes m: "0 < m" "m \<le> 2 ^ 40" and u: "0 \<le> u" "u \<le> 2 ^ 32"
    and c: "of_int (2 * m) \<le> c"
  shows "0 \<le> ByteCount_of (fl64 (fl64 (float64 m * float64 u) / c))"
    and "ByteCount_of (fl64 (fl64 (float64 m * float64 u) / c)) \<le> 2 ^ 31"
proof -
  have fm: "float64 m = of_int m" using m by (intro float64_exact) simp
  have fu: "float64 u = of_int u" using u by (intro float64_exact) simp
  have m0: "(0::rat) < of_int m" using m by simp
  have u0: "(0::rat) \<le> of_int u" using u by simp
  have c0: "0 < c" using c m0 by simp
  have p0: "0 \<le> fl64 (of_int m * of_int u)" using m0 u0 by (intro fl64_nonneg) simp
  have "(of_int u :: rat) \<le> of_int (2 ^ 32)" using u by (simp only: of_int_le_iff)
  then have "(of_int m :: rat) * of_int u \<le> of_int m * of_int (2 ^ 32)"
    using m0 by (intro mult_left_mono) simp_all
  then have "(of_int m :: rat) * of_int u \<le> of_int m * 2 powi 32" by simp
  then have p1: "fl64 (of_int m * of_int u) \<le> of_int m * 2 powi 32"
    using m by (intro fl64_le_exact) simp_all
  have q0: "0 \<le> fl64 (of_int m * of_int u) / c" using p0 c0 by simp
  have "fl64 (of_int m * of_int u) / c \<le> (of_int m * 2 powi 32) / c"
    using p1 c0 by (simp add: divide_right_mono)
  also have "\<dots> \<le> (of_int m * 2 powi 32) / of_int (2 * m)"
    using c m0 by (intro divide_left_mono) simp_all
  also have "\<dots> = of_int (2 ^ 31)" using m0 by simp
  finally have q1: "fl64 (of_int m * of_int u) / c \<le> of_int (2 ^ 31)" .
  have y0: "of_int 0 \<le> fl64 (fl64 (of_int m * of_int u) / c)" using fl64_nonneg [OF q0] by simp
  have y1: "fl64 (fl64 (of_int m * of_int u) / c) \<le> of_int (2 ^ 31)"
    using q1 by (intro fl64_le_of_int) simp_all
  show "0 \<le> ByteCount_of (fl64 (fl64 (float64 m * float64 u) / c))"
    and "ByteCount_of (fl64 (fl64 (float64 m * float64 u) / c)) \<le> 2 ^ 31"
    unfolding fm fu using ByteCount_of_bounds [OF y0 y1] by simp_all
qed

lemma sender_inv_pragueAdditiveIncrease:
  assumes inv: "sender_inv M p" and ss: "\<not> inSlowStart p" and a: "0 \<le> a" "a \<le> 2 ^ 32"
  shows "sender_inv M (pragueAdditiveIncrease a p)"
proof (cases "congestionWindow p \<ge> initialMaxCongestionWindow p")
  case True
  then show ?thesis using inv by (simp add: pragueAdditiveIncrease_def)
next
  case False
  let ?m = "maxDatagramSize p" and ?w = "congestionWindow p"
  have m: "0 < ?m" "?m \<le> 2 ^ 40" and w: "2 * ?m \<le> ?w"
    and al: "0 \<le> alpha p" "alpha p \<le> 1" and d: "initialMaxCongestionWindow p \<le> 2 ^ 62"
    using inv by (simp_all add: sender_inv_def)
  note b = float64_cwnd_bounds [OF inv]
  define u where "u = (if l4sEnabled p \<and> alpha p > 0
                       then ByteCount_of (fl64 (float64 a * fl64 (1 - alpha p))) else a)"
  have u: "0 \<le> u" "u \<le> 2 ^ 32"
    using unmarked_bounds [OF al a] a by (auto simp: u_def)
  define inc where "inc = ByteCount_of (fl64 (fl64 (float64 ?m * float64 u) / float64 ?w))"
  have inc: "0 \<le> inc" "inc \<le> 2 ^ 31"
    unfolding inc_def using increase_bounds [OF m u b(1)] by simp_all
  have nz: "float64 ?w \<noteq> 0" using b(3) by simp
  have e: "pragueAdditiveIncrease a p = p\<lparr>congestionWindow := i64 (?w + inc)\<rparr>"
    using False nz by (simp add: pragueAdditiveIncrease_def Let_def inc_def u_def)
  have "?w + inc < 2 ^ 63" using False d inc by simp
  moreover have "- (2 ^ 63) \<le> ?w + inc" using w m inc by simp
  ultimately have i: "i64 (?w + inc) = ?w + inc" by (intro i64_id)
  show ?thesis unfolding e i using inv ss inc False
    by (simp add: sender_inv_def cwnd_max_def)
qed

lemma sender_inv_OnPacketAcked:
  assumes inv: "sender_inv M p" and a: "0 \<le> a" "a \<le> 2 ^ 32"
  shows "sender_inv M (OnPacketAcked n a f t p)"
proof -
  define p2 where "p2 = (if n > largestAckedPacketNumber p
                          then p\<lparr>largestAckedPacketNumber := n\<rparr> else p)
                         \<lparr>totalAckedBytes := i64 (totalAckedBytes
                             (if n > largestAckedPacketNumber p
                              then p\<lparr>largestAckedPacketNumber := n\<rparr> else p) + a)\<rparr>"
  have inv2: "sender_inv M p2" using inv by (simp add: p2_def sender_inv_def)
  have e: "OnPacketAcked n a f t p =
             (if inRecovery p2 \<and> n \<le> largestSentAtLastCutback p2 then p2
              else if inSlowStart p2
                   then MaybeExitSlowStart (p2\<lparr>congestionWindow := i64 (congestionWindow p2 + a)\<rparr>)
                   else pragueAdditiveIncrease a p2)"
    by (simp add: OnPacketAcked_def Let_def p2_def)
  consider (rec) "inRecovery p2 \<and> n \<le> largestSentAtLastCutback p2"
    | (ss) "\<not> (inRecovery p2 \<and> n \<le> largestSentAtLastCutback p2)" "inSlowStart p2"
    | (ai) "\<not> (inRecovery p2 \<and> n \<le> largestSentAtLastCutback p2)" "\<not> inSlowStart p2"
    by blast
  then show ?thesis
  proof cases
    case rec
    then show ?thesis unfolding e using inv2 by simp
  next
    case ss
    let ?w = "congestionWindow p2"
    have w: "2 * maxDatagramSize p2 \<le> ?w" "?w < M" "M \<le> 2 ^ 62" "0 < maxDatagramSize p2"
      and th: "slowStartThreshold p2 = M"
      using inv2 ss(2) by (simp_all add: sender_inv_def)
    have "?w + a < 2 ^ 63" using w a by simp
    moreover have "- (2 ^ 63) \<le> ?w + a" using w a by simp
    ultimately have i: "i64 (?w + a) = ?w + a" by (intro i64_id)
    have "sender_inv M (MaybeExitSlowStart (p2\<lparr>congestionWindow := ?w + a\<rparr>))"
      using inv2 w a th
      by (auto simp: MaybeExitSlowStart_def sender_inv_def cwnd_max_def)
    then show ?thesis unfolding e i using ss by auto
  next
    case ai
    have "sender_inv M (pragueAdditiveIncrease a p2)"
      using inv2 ai(2) a by (rule sender_inv_pragueAdditiveIncrease)
    then show ?thesis unfolding e using ai by auto
  qed
qed

lemma sender_inv_updateAlpha: "sender_inv M p \<Longrightarrow> sender_inv M (updateAlpha p)"
  by (auto simp: updateAlpha_def Let_def sender_inv_def)

lemma carry_bound_exact: "(1 :: rat) + of_int cwnd_max \<le> of_int (2 ^ 29 + 1) * 2 powi 33"
  by (simp add: cwnd_max_def)

lemma carry_bound_lt: "(of_int (2 ^ 29 + 1) :: rat) * 2 powi 33 < 2 ^ 63"
  by simp

lemma sender_inv_applyECNCongestionResponse:
  assumes inv: "sender_inv M p"
  shows "sender_inv M (applyECNCongestionResponse p)"
proof (cases "alpha p \<le> 0")
  case True
  then show ?thesis using inv by (simp add: applyECNCongestionResponse_def)
next
  case False
  let ?m = "maxDatagramSize p" and ?w = "congestionWindow p"
  have m: "0 < ?m" "?m \<le> 2 ^ 40"
    and al: "0 \<le> alpha p" "alpha p \<le> 1"
    and k0: "0 \<le> cwndCarry p" "cwndCarry p \<le> 1"
    using inv by (simp_all add: sender_inv_def)
  define c where "c = float64 ?w"
  define rf where "rf = fl64 (1 - fl64 (alpha p / 2))"
  define N where "N = fl64 (c * rf)"
  define k where "k = fl64 (cwndCarry p + fl64 (c - N))"
  define red where "red = ByteCount_of k"
  define N' where "N' = (if k \<ge> 1 then fl64 (N - float64 red) else N)"
  define k' where "k' = (if k \<ge> 1 then fl64 (k - float64 red) else k)"
  define w' where "w' = ByteCount_of (max N' (float64 (minCongestionWindow (p\<lparr>cwndCarry := k'\<rparr>))))"
  have c: "of_int (2 * ?m) \<le> c" "c \<le> of_int cwnd_max" "0 < c"
    unfolding c_def using float64_cwnd_bounds [OF inv] by simp_all
  have cc: "fl64 c = c" by (simp add: c_def)
  have h0: "0 \<le> fl64 (alpha p / 2)" using al by (intro fl64_nonneg) simp
  have h1: "fl64 (alpha p / 2) \<le> of_int 1" using al by (intro fl64_le_of_int) simp_all
  have rf0: "0 \<le> rf" unfolding rf_def using h1 by (intro fl64_nonneg) simp
  have rf1: "rf \<le> of_int 1" unfolding rf_def using h0 by (intro fl64_le_of_int) simp_all
  have N0: "0 \<le> N" unfolding N_def using c(3) rf0 by (intro fl64_nonneg) simp
  have "c * rf \<le> c * 1" using c(3) rf1 by (intro mult_left_mono) simp_all
  then have "fl64 (c * rf) \<le> fl64 c" by (intro fl64_mono) simp
  then have N1: "N \<le> c" unfolding N_def cc .
  have NN: "fl64 N = N" by (simp add: N_def)
  have d0: "0 \<le> fl64 (c - N)" using N1 by (intro fl64_nonneg) simp
  have "c - N \<le> of_int cwnd_max" using N0 c(2) by simp
  then have d1: "fl64 (c - N) \<le> of_int cwnd_max" by (rule fl64_le_cwnd_max)
  have s0: "0 \<le> cwndCarry p + fl64 (c - N)" using k0 d0 by simp
  have "cwndCarry p + fl64 (c - N) \<le> 1 + of_int cwnd_max" using k0 d1 by simp
  then have "cwndCarry p + fl64 (c - N) \<le> of_int (2 ^ 29 + 1) * 2 powi 33"
    using carry_bound_exact by (rule order_trans)
  then have "k \<le> of_int (2 ^ 29 + 1) * 2 powi 33"
    unfolding k_def by (rule fl64_le_exact) simp_all
  then have kb: "k < 2 ^ 63" using carry_bound_lt by (rule le_less_trans)
  have kn: "0 \<le> k" unfolding k_def using s0 by (rule fl64_nonneg)
  have red: "red = \<lfloor>k\<rfloor>" unfolding red_def using kn kb by (rule ByteCount_of_nonneg)
  have fred: "float64 red = of_int \<lfloor>k\<rfloor>"
    unfolding red float64_def k_def using s0 by (rule fl64_floor)
  have N'1: "N' \<le> c"
  proof (cases "k \<ge> 1")
    case True
    have "(0::rat) \<le> of_int \<lfloor>k\<rfloor>" using kn by simp
    then have "fl64 (N - of_int \<lfloor>k\<rfloor>) \<le> fl64 N" by (intro fl64_mono) simp
    then show ?thesis using True N1 by (simp add: N'_def fred NN)
  next
    case False
    then show ?thesis using N1 by (simp add: N'_def)
  qed
  have k': "0 \<le> k'" "k' \<le> 1"
  proof -
    have f0: "0 \<le> k - of_int \<lfloor>k\<rfloor>" by simp
    have f1: "k - of_int \<lfloor>k\<rfloor> \<le> of_int 1" by simp linarith
    have "0 \<le> fl64 (k - of_int \<lfloor>k\<rfloor>)" using f0 by (rule fl64_nonneg)
    moreover have "fl64 (k - of_int \<lfloor>k\<rfloor>) \<le> of_int 1" using f1 by (rule fl64_le_of_int) simp
    ultimately show "0 \<le> k'" "k' \<le> 1" using kn by (auto simp: k'_def fred)
  qed
  have mq: "float64 (minCongestionWindow (p\<lparr>cwndCarry := k'\<rparr>)) = of_int (2 * ?m)"
    using float64_minCwnd [of "p\<lparr>cwndCarry := k'\<rparr>"] m by simp
  have lo: "of_int (2 * ?m) \<le> max N' (float64 (minCongestionWindow (p\<lparr>cwndCarry := k'\<rparr>)))"
    unfolding mq by simp
  have "of_int (2 * ?m) \<le> (of_int cwnd_max :: rat)" using c by linarith
  then have hi: "max N' (float64 (minCongestionWindow (p\<lparr>cwndCarry := k'\<rparr>))) \<le> of_int cwnd_max"
    unfolding mq using N'1 c(2) by simp
  have w': "2 * ?m \<le> w'" "w' \<le> cwnd_max"
    unfolding w'_def using ByteCount_of_bounds [OF lo hi] m by (simp_all add: cwnd_max_def)
  have e1: "congestionWindow (applyECNCongestionResponse p) = w'"
    using False
    by (simp add: applyECNCongestionResponse_def Let_def w'_def k'_def N'_def red_def k_def
                  N_def rf_def c_def)
  have e2: "cwndCarry (applyECNCongestionResponse p) = k'"
    using False
    by (simp add: applyECNCongestionResponse_def Let_def k'_def red_def k_def N_def rf_def c_def)
  have e3: "\<not> inSlowStart (applyECNCongestionResponse p)"
    using False by (simp add: applyECNCongestionResponse_def Let_def)
  have e4: "maxDatagramSize (applyECNCongestionResponse p) = ?m"
    "initialMaxCongestionWindow (applyECNCongestionResponse p) = initialMaxCongestionWindow p"
    by (simp_all add: applyECNCongestionResponse_def Let_def)
  show ?thesis using inv w' k'
    by (simp add: sender_inv_def e1 e2 e3 e4)
qed

lemma sender_inv_OnECNFeedback:
  assumes inv: "sender_inv M p"
  shows "sender_inv M (OnECNFeedback e p)"
proof -
  define p1 where "p1 = p\<lparr>ecnMarkedBytes := i64 (ecnMarkedBytes p + e)\<rparr>"
  have i1: "sender_inv M p1" using inv by (simp add: p1_def sender_inv_def)
  have "sender_inv M (applyECNCongestionResponse (updateAlpha p1))"
    using i1 by (intro sender_inv_applyECNCongestionResponse sender_inv_updateAlpha)
  then have "sender_inv M ((applyECNCongestionResponse (updateAlpha p1))
                             \<lparr>ecnMarkedBytes := 0, totalAckedBytes := 0\<rparr>)"
    by (simp add: sender_inv_def)
  then show ?thesis using inv i1
    by (simp add: OnECNFeedback_def Let_def p1_def)
qed

lemma sender_inv_step:
  assumes "sender_inv M p" "ok_op p x" "step ipn sp x p = Inr p'"
  shows "sender_inv M p'"
proof (cases x)
  case (PacketSent t f n b r)
  with assms show ?thesis by (auto intro: sender_inv_OnPacketSent)
next
  case (PacketAcked n a f t)
  with assms show ?thesis by (auto intro: sender_inv_OnPacketAcked)
next
  case (CongestionEvent n l f)
  with assms show ?thesis by (auto intro: sender_inv_OnCongestionEvent)
next
  case (RetransmissionTimeout r)
  with assms show ?thesis by (auto intro: sender_inv_OnRetransmissionTimeout)
next
  case (MaxDatagramSize m)
  with assms have "SetMaxDatagramSize m p = Inr p'" "m \<le> 2 ^ 40"
    "congestionWindow p = minCongestionWindow p \<or> 2 * m \<le> congestionWindow p"
    by simp_all
  with assms(1) show ?thesis by (rule sender_inv_SetMaxDatagramSize)
next
  case (ECNFeedback e)
  with assms show ?thesis by (auto intro: sender_inv_OnECNFeedback)
next
  case ExitSlowStartCheck
  with assms show ?thesis by (auto intro: sender_inv_MaybeExitSlowStart)
qed

lemma sender_inv_run:
  "sender_inv M p \<Longrightarrow> admissible ipn sp xs p \<Longrightarrow> run ipn sp xs p = Inr p' \<Longrightarrow> sender_inv M p'"
proof (induction xs arbitrary: p)
  case Nil
  then show ?case by simp
next
  case (Cons x xs)
  from Cons.prems(3) obtain q where q: "step ipn sp x p = Inr q" and r: "run ipn sp xs q = Inr p'"
    by (auto split: sum.splits)
  from Cons.prems(2) q have ok: "ok_op p x" and ad: "admissible ipn sp xs q"
    by simp_all
  from Cons.prems(1) ok q have "sender_inv M q" by (rule sender_inv_step)
  then show ?case using ad r by (rule Cons.IH)
qed

lemma admissible_take: "admissible ipn sp xs p \<Longrightarrow> admissible ipn sp (take k xs) p"
proof (induction xs arbitrary: p k)
  case Nil
  then show ?case by simp
next
  case (Cons x xs)
  show ?case
  proof (cases k)
    case 0
    then show ?thesis by simp
  next
    case (Suc j)
    with Cons show ?thesis by (auto split: sum.splits)
  qed
qed


section \<open>The claims\<close>

text \<open>
  C1.  The specification promises that one ECN response shrinks the congestion window by
  the factor \<open>1 - alpha / 2\<close> at most, and that the cold start (ten packets of 1200
  bytes acknowledged, then 2400 bytes reported as marked) ends with a window of 19200
  bytes.  The code subtracts the reduction a second time through the carry: a fresh
  sender that acknowledges ten packets and then receives the feedback ends at the
  minimum window of 2400 bytes, and so does a sender whose window is 38400 bytes when the
  sample closes.
\<close>

theorem C1_cold_start_collapses_to_min_cwnd:
  "map_sum id (\<lambda>p. (alpha p, congestionWindow p, inSlowStart p))
     (run (- 1) (\<lambda>t b u. u)
        (map (\<lambda>k. PacketAcked k 1200 0 0) [1, 2, 3, 4, 5, 6, 7, 8, 9, 10] @ [ECNFeedback 2400])
        (newPragueSender (2 ^ 62 - 1) 524288 () 1200 True))
   = Inr (1, 2400, False)
   \<and> congestionWindow
       (OnECNFeedback 2400
          ((newPragueSender (2 ^ 62 - 1) 524288 () 1200 True)\<lparr>totalAckedBytes := 12000\<rparr>))
     = 2400"
  by code_simp

text \<open>
  C2.  The specification has the acknowledgement of a packet sent after the last cutback
  end recovery.  In the code no operation clears the flag: after a loss at packet 100
  with packet 200 the largest sent, the acknowledgement of packet 201 grows the window
  again and leaves \<open>inRecovery\<close> set.
\<close>

theorem C2_recovery_flag_survives_new_ack:
  "map_sum id (\<lambda>p. (inRecovery p, largestSentAtLastCutback p))
     (run (- 1) (\<lambda>t b u. u)
        [PacketSent 0 0 200 1200 True, CongestionEvent 100 1200 1200, PacketAcked 201 1200 0 0]
        (newPragueSender (2 ^ 62 - 1) 524288 () 1200 True))
   = Inr (True, 200)"
  by code_simp

text \<open>
  C3.  From a new sender with a datagram size between 1 and \<open>2 ^ 40\<close>, every run of
  operations whose acknowledged byte counts lie between 0 and \<open>2 ^ 32\<close>, and whose
  datagram-size changes arrive when the window is at the minimum or already at least
  twice the new size, keeps \<open>cwnd \<ge> 2 * max_datagram_size\<close> after every operation
  (\<open>take k ops\<close> is the run up to its \<open>k\<close>-th operation).  \<open>M\<close> and \<open>D\<close> are
  \<^verbatim>\<open>protocol.MaxByteCount\<close> and \<^verbatim>\<open>protocol.DefaultInitialMaxStreamData\<close>.
\<close>

theorem C3_cwnd_floor:
  assumes "0 < mds" and "mds \<le> 2 ^ 40" and "2 ^ 45 < M" and "M \<le> 2 ^ 62" and "D \<le> 2 ^ 62"
    and "admissible ipn sp ops (newPragueSender M D pc mds l4s)"
    and "run ipn sp (take k ops) (newPragueSender M D pc mds l4s) = Inr p"
  shows "2 * maxDatagramSize p \<le> congestionWindow p"
proof -
  have "sender_inv M (newPragueSender M D pc mds l4s)"
    using assms(1-5) by (rule sender_inv_new)
  moreover have "admissible ipn sp (take k ops) (newPragueSender M D pc mds l4s)"
    using assms(6) by (rule admissible_take)
  ultimately have "sender_inv M p"
    using assms(7) by (rule sender_inv_run)
  then show ?thesis by (simp add: sender_inv_def)
qed


theorem C3_witness:
  "admissible (- 1) (\<lambda>t b u. u)
     [PacketAcked 1 1200 0 0, ECNFeedback 2400, MaxDatagramSize 1500, PacketAcked 2 1200 0 0]
     (newPragueSender (2 ^ 62 - 1) 524288 () 1200 True)
   \<and> run (- 1) (\<lambda>t b u. u)
       (take 4 [PacketAcked 1 1200 0 0, ECNFeedback 2400, MaxDatagramSize 1500,
                PacketAcked 2 1200 0 0])
       (newPragueSender (2 ^ 62 - 1) 524288 () 1200 True)
     = Inr ((newPragueSender (2 ^ 62 - 1) 524288 () 1200 True)
              \<lparr>alpha := 1, congestionWindow := 3000, largestAckedPacketNumber := 2,
                totalAckedBytes := 1200, inSlowStart := False, maxDatagramSize := 1500\<rparr>)
   \<and> 2 * maxDatagramSize
           ((newPragueSender (2 ^ 62 - 1) 524288 () 1200 True)
              \<lparr>alpha := 1, congestionWindow := 3000, largestAckedPacketNumber := 2,
                totalAckedBytes := 1200, inSlowStart := False, maxDatagramSize := 1500\<rparr>)
       \<le> congestionWindow
           ((newPragueSender (2 ^ 62 - 1) 524288 () 1200 True)
              \<lparr>alpha := 1, congestionWindow := 3000, largestAckedPacketNumber := 2,
                totalAckedBytes := 1200, inSlowStart := False, maxDatagramSize := 1500\<rparr>)"
proof -
  let ?ops = "[PacketAcked 1 1200 0 0, ECNFeedback 2400, MaxDatagramSize 1500,
               PacketAcked 2 1200 0 0]"
  let ?init = "newPragueSender (2 ^ 62 - 1) 524288 () 1200 True"
  let ?final = "?init\<lparr>alpha := 1, congestionWindow := 3000, largestAckedPacketNumber := 2,
                totalAckedBytes := 1200, inSlowStart := False, maxDatagramSize := 1500\<rparr>"
  have a: "admissible (- 1) (\<lambda>t b u. u) ?ops ?init"
    by code_simp
  have r: "run (- 1) (\<lambda>t b u. u) (take 4 ?ops) ?init = Inr ?final"
    by code_simp
  have "2 * maxDatagramSize ?final \<le> congestionWindow ?final"
    by (rule C3_cwnd_floor [where mds = 1200 and M = "2 ^ 62 - 1" and D = 524288, OF _ _ _ _ _ a r])
       simp_all
  with a r show ?thesis
    by blast
qed

text \<open>
  Without the condition on datagram-size changes the floor is lost: after a
  retransmission timeout and the acknowledgement of 600 bytes the window is 2700 bytes,
  which is not the minimum of 2400, so raising the datagram size from 1200 to 1500 leaves
  it at 2700, below the new floor of 3000.
\<close>

theorem C3_size_change_breaks_floor:
  "(case run (- 1) (\<lambda>t b u. u)
           [RetransmissionTimeout True, PacketAcked 1 600 0 0, MaxDatagramSize 1500]
           (newPragueSender (2 ^ 62 - 1) 524288 () 1200 True)
    of Inl e \<Rightarrow> False
     | Inr p \<Rightarrow> congestionWindow p = 2700 \<and> maxDatagramSize p = 1500
               \<and> congestionWindow p < 2 * maxDatagramSize p)"
  by code_simp

text \<open>
  C4.  When a sample window closes, \<open>OnECNFeedback\<close> computes the marking fraction
  \<open>f\<close> of the sample and sets \<open>alpha\<close> to 1 when it was 0 and \<open>f\<close> is
  positive, and otherwise to \<open>(1 - 1/16) * alpha + (1/16) * f\<close>, every operation rounded
  to binary64, then clamped to the unit interval; the new \<open>alpha\<close> lies between 0 and 1.
  From \<open>alpha = 1\<close> a sample with 10% marking gives the binary64 number nearest to
  0.94375, within \<open>1 / 2 ^ 53\<close> of it.
\<close>

theorem C4_alpha_update:
  "(l4sEnabled p \<and> 0 < totalAckedBytes p \<and> alphaGain p = pragueAlphaGain \<longrightarrow>
      alpha (OnECNFeedback x p) =
        min 1 (max 0
          (if alpha p = 0
              \<and> 0 < fl64 (float64 (i64 (ecnMarkedBytes p + x)) / float64 (totalAckedBytes p))
           then 1
           else fl64 (fl64 (15 / 16 * alpha p)
                      + fl64 (1 / 16 * fl64 (float64 (i64 (ecnMarkedBytes p + x))
                                             / float64 (totalAckedBytes p))))))
      \<and> 0 \<le> alpha (OnECNFeedback x p) \<and> alpha (OnECNFeedback x p) \<le> 1)
   \<and> alpha (OnECNFeedback 1200
              ((newPragueSender (2 ^ 62 - 1) 524288 () 1200 True)
                 \<lparr>alpha := 1, totalAckedBytes := 12000\<rparr>))
     = fl64 (151 / 160)
   \<and> \<bar>fl64 (151 / 160) - 151 / 160\<bar> < 1 / 2 ^ 53"
proof -
  have "alpha (OnECNFeedback x p) =
        min 1 (max 0
          (if alpha p = 0
              \<and> 0 < fl64 (float64 (i64 (ecnMarkedBytes p + x)) / float64 (totalAckedBytes p))
           then 1
           else fl64 (fl64 (15 / 16 * alpha p)
                      + fl64 (1 / 16 * fl64 (float64 (i64 (ecnMarkedBytes p + x))
                                             / float64 (totalAckedBytes p))))))"
    if "l4sEnabled p" "0 < totalAckedBytes p" "alphaGain p = pragueAlphaGain"
    using that alpha_updateAlpha [of "p\<lparr>ecnMarkedBytes := i64 (ecnMarkedBytes p + x)\<rparr>"]
    by (simp add: alpha_OnECNFeedback)
  moreover have "\<bar>fl64 (151 / 160) - 151 / 160\<bar> < 1 / 2 ^ 53"
    unfolding fl64_151_160 by simp
  ultimately show ?thesis
    using alpha_steady_sample fl64_151_160 by auto
qed

theorem C4_witness:
  "alpha (OnECNFeedback 2400
            ((newPragueSender (2 ^ 62 - 1) 524288 () 1200 True)\<lparr>totalAckedBytes := 12000\<rparr>))
   = 1"
proof -
  have "fl64 (float64 (i64 2400) / float64 12000) = 3602879701896397 / 18014398509481984"
    by code_simp
  then show ?thesis
    using C4_alpha_update
            [of "(newPragueSender (2 ^ 62 - 1) 524288 () 1200 True)\<lparr>totalAckedBytes := 12000\<rparr>"
                2400]
    by (simp add: newPragueSender_def)
qed


text \<open>
  The value 0.95625 that the specification gives for this sample is not what the update
  computes: \<open>15/16 + 1/160\<close> is 0.94375, and the new \<open>alpha\<close> is below 0.95.
\<close>

theorem C4_steady_sample_is_not_095625:
  "alpha (OnECNFeedback 1200
            ((newPragueSender (2 ^ 62 - 1) 524288 () 1200 True)
               \<lparr>alpha := 1, totalAckedBytes := 12000\<rparr>))
   \<noteq> 153 / 160
   \<and> alpha (OnECNFeedback 1200
              ((newPragueSender (2 ^ 62 - 1) 524288 () 1200 True)
                 \<lparr>alpha := 1, totalAckedBytes := 12000\<rparr>))
     < 95 / 100"
  unfolding alpha_steady_sample by simp

text \<open>
  C5.  A sender constructed with L4S disabled ignores ECN feedback: in every state that a
  run of operations reaches from the constructor, \<open>OnECNFeedback\<close> returns the state
  it was given, whatever the byte count.
\<close>

theorem C5_ecn_feedback_ignored_without_l4s:
  assumes "run ipn sp ops (newPragueSender M D pc mds False) = Inr p"
  shows "OnECNFeedback x p = p"
proof -
  have "l4sEnabled p = l4sEnabled (newPragueSender M D pc mds False)"
    using assms by (rule l4sEnabled_run)
  then have "\<not> l4sEnabled p"
    by (simp add: newPragueSender_def)
  then show ?thesis
    by (rule OnECNFeedback_without_l4s)
qed

theorem C5_witness:
  "run (- 1) (\<lambda>t b u. u) [PacketAcked 1 1200 0 0] (newPragueSender (2 ^ 62 - 1) 524288 () 1200 False)
     = Inr (OnPacketAcked 1 1200 0 0 (newPragueSender (2 ^ 62 - 1) 524288 () 1200 False))
   \<and> OnECNFeedback 2400
       (OnPacketAcked 1 1200 0 0 (newPragueSender (2 ^ 62 - 1) 524288 () 1200 False))
     = OnPacketAcked 1 1200 0 0 (newPragueSender (2 ^ 62 - 1) 524288 () 1200 False)"
proof -
  have h: "run (- 1) (\<lambda>t b u. u) [PacketAcked 1 1200 0 0]
             (newPragueSender (2 ^ 62 - 1) 524288 () 1200 False)
           = Inr (OnPacketAcked 1 1200 0 0 (newPragueSender (2 ^ 62 - 1) 524288 () 1200 False))"
    by simp
  from C5_ecn_feedback_ignored_without_l4s [OF h, of 2400] h show ?thesis
    by simp
qed

text \<open>
  C6.  A congestion event for a packet number at or below \<open>largestSentAtLastCutback\<close>
  leaves the sender as it was, so repeating the call changes nothing.  Any other
  congestion event halves the window into \<open>slowStartThreshold\<close> (rounding down), sets
  the window to the larger of the threshold and the minimum window, leaves slow start,
  enters recovery and records the largest sent packet number as the last cutback.  The
  arithmetic runs through binary64, which is exact for windows below \<open>2 ^ 53\<close> bytes.
\<close>

theorem C6_loss_response:
  "(number \<le> largestSentAtLastCutback p \<longrightarrow>
      OnCongestionEvent number lost prior p = p
      \<and> OnCongestionEvent number lost prior (OnCongestionEvent number lost prior p)
          = OnCongestionEvent number lost prior p)
   \<and> (largestSentAtLastCutback p < number
        \<and> 0 \<le> congestionWindow p \<and> congestionWindow p < 2 ^ 53
        \<and> 0 \<le> maxDatagramSize p \<and> maxDatagramSize p < 2 ^ 52 \<longrightarrow>
      OnCongestionEvent number lost prior p =
        p\<lparr>lastCutbackExitedSlowstart := inSlowStart p,
          inSlowStart := False,
          inRecovery := True,
          largestSentAtLastCutback := largestSentPacketNumber p,
          slowStartThreshold := congestionWindow p div 2,
          congestionWindow := max (2 * maxDatagramSize p) (congestionWindow p div 2)\<rparr>)"
  using OnCongestionEvent_cut [of p number lost prior]
  by (simp add: OnCongestionEvent_ignored)

theorem C6_witness:
  "OnCongestionEvent 100 1200 60000
     ((newPragueSender (2 ^ 62 - 1) 524288 () 1200 True)
        \<lparr>congestionWindow := 60000, largestSentPacketNumber := 200\<rparr>)
   = (newPragueSender (2 ^ 62 - 1) 524288 () 1200 True)
        \<lparr>congestionWindow := 30000, largestSentPacketNumber := 200,
          lastCutbackExitedSlowstart := True, inSlowStart := False, inRecovery := True,
          largestSentAtLastCutback := 200, slowStartThreshold := 30000\<rparr>
   \<and> OnCongestionEvent 150 1200 58800
        ((newPragueSender (2 ^ 62 - 1) 524288 () 1200 True)
           \<lparr>congestionWindow := 30000, largestSentPacketNumber := 200,
             lastCutbackExitedSlowstart := True, inSlowStart := False, inRecovery := True,
             largestSentAtLastCutback := 200, slowStartThreshold := 30000\<rparr>)
     = (newPragueSender (2 ^ 62 - 1) 524288 () 1200 True)
          \<lparr>congestionWindow := 30000, largestSentPacketNumber := 200,
            lastCutbackExitedSlowstart := True, inSlowStart := False, inRecovery := True,
            largestSentAtLastCutback := 200, slowStartThreshold := 30000\<rparr>"
  using C6_loss_response
          [of 100 "(newPragueSender (2 ^ 62 - 1) 524288 () 1200 True)
                     \<lparr>congestionWindow := 60000, largestSentPacketNumber := 200\<rparr>" 1200 60000]
        C6_loss_response
          [of 150 "(newPragueSender (2 ^ 62 - 1) 524288 () 1200 True)
                     \<lparr>congestionWindow := 30000, largestSentPacketNumber := 200,
                       lastCutbackExitedSlowstart := True, inSlowStart := False,
                       inRecovery := True, largestSentAtLastCutback := 200,
                       slowStartThreshold := 30000\<rparr>" 1200 58800]
  by (simp add: newPragueSender_def)

text \<open>
  C7.  The ECN codepoint of an outgoing packet depends on four inputs only.  A
  short-header packet with ECN usable gets ECT(1) exactly when L4S is enabled and the
  algorithm is Prague, and ECT(0) otherwise; a long-header packet gets Not-ECT whatever
  the other inputs are.
\<close>

theorem C7_ecn_mode_selection:
  "(isShort \<and> ecnUsable \<longrightarrow>
      (ECNMode ecnUsable l4s alg isShort = ECT1 \<longleftrightarrow> l4s \<and> alg = CongestionControlPrague)
      \<and> (\<not> (l4s \<and> alg = CongestionControlPrague) \<longrightarrow> ECNMode ecnUsable l4s alg isShort = ECT0))
   \<and> (\<not> isShort \<longrightarrow> ECNMode ecnUsable l4s alg isShort = NotECT)"
  by (simp add: ECNMode_def)

theorem C7_witness:
  "ECNMode True True CongestionControlPrague True = ECT1
   \<and> ECNMode True True CongestionControlRFC9002 True = ECT0
   \<and> ECNMode True False CongestionControlPrague True = ECT0
   \<and> ECNMode True True CongestionControlPrague False = NotECT"
  using C7_ecn_mode_selection [of True True True CongestionControlPrague]
        C7_ecn_mode_selection [of True True True CongestionControlRFC9002]
        C7_ecn_mode_selection [of True True False CongestionControlPrague]
        C7_ecn_mode_selection [of False True True CongestionControlPrague]
  by simp

text \<open>
  The guide's listing agrees with the selector on short-header packets with ECN usable;
  it does not show the long-header and ECN-disabled cases that the package's tests
  exercise.
\<close>

lemma ECNMode_guide_agrees:
  "ECNMode True l4s alg True = ECNMode_guide l4s alg True"
  by (simp add: ECNMode_def ECNMode_guide_def)

lemma ECNMode_guide_long_header:
  "ECNMode_guide True CongestionControlPrague False = ECT1"
  by (simp add: ECNMode_guide_def)

text \<open>
  C8.  Validation returns the error "L4S can only be enabled when using Prague congestion
  control algorithm" exactly when L4S is enabled and the algorithm is not Prague; every
  other configuration, and the nil configuration, passes.  Populating a configuration
  with L4S enabled selects Prague, in particular when the algorithm was left unset, and
  the populated configuration passes validation.
\<close>

theorem C8_config_validation:
  "(validateConfigExample (Some c)
      = Some (Errorf ''L4S can only be enabled when using Prague congestion control algorithm'')
    \<longleftrightarrow> EnableL4S c \<and> CongestionControlAlgorithm c \<noteq> CongestionControlPrague)
   \<and> (\<not> (EnableL4S c \<and> CongestionControlAlgorithm c \<noteq> CongestionControlPrague)
        \<longrightarrow> validateConfigExample (Some c) = None)
   \<and> validateConfigExample None = None
   \<and> (EnableL4S c \<longrightarrow>
        CongestionControlAlgorithm (populateConfigExample (Some c)) = CongestionControlPrague)
   \<and> validateConfigExample (Some (populateConfigExample (Some c))) = None"
  by (simp add: validateConfigExample_def populateConfigExample_def Let_def)

theorem C8_witness:
  "validateConfigExample (Some (zeroConfig\<lparr>EnableL4S := True\<rparr>))
     = Some (Errorf ''L4S can only be enabled when using Prague congestion control algorithm'')
   \<and> validateConfigExample
       (Some (zeroConfig\<lparr>CongestionControlAlgorithm := CongestionControlPrague\<rparr>)) = None
   \<and> CongestionControlAlgorithm (populateConfigExample (Some (zeroConfig\<lparr>EnableL4S := True\<rparr>)))
     = CongestionControlPrague"
  using C8_config_validation [of "zeroConfig\<lparr>EnableL4S := True\<rparr>"]
        C8_config_validation [of "zeroConfig\<lparr>CongestionControlAlgorithm := CongestionControlPrague\<rparr>"]
  by (simp add: zeroConfig_def)

text \<open>
  C9.  Outside slow start, once the congestion window has reached
  \<open>initialMaxCongestionWindow\<close> (set to \<^verbatim>\<open>protocol.DefaultInitialMaxStreamData\<close> by the
  constructor), the additive increase does nothing and an acknowledgement leaves the
  window as it was.
\<close>

theorem C9_additive_increase_capped:
  assumes "\<not> inSlowStart p" and "initialMaxCongestionWindow p \<le> congestionWindow p"
  shows "pragueAdditiveIncrease a p = p
         \<and> congestionWindow (OnPacketAcked n a f t p) = congestionWindow p"
  using assms by (simp add: OnPacketAcked_def pragueAdditiveIncrease_def Let_def)

theorem C9_witness:
  "congestionWindow
     (OnPacketAcked 7 1200 0 0
        ((newPragueSender (2 ^ 62 - 1) 524288 () 1200 True)
           \<lparr>inSlowStart := False, congestionWindow := 524288\<rparr>))
   = 524288"
  using C9_additive_increase_capped
          [of "(newPragueSender (2 ^ 62 - 1) 524288 () 1200 True)
                 \<lparr>inSlowStart := False, congestionWindow := 524288\<rparr>" 1200 7 0 0]
  by (simp add: newPragueSender_def)

text \<open>
  C10.  A new sender is in slow start; no run of operations takes a sender that is outside
  slow start back into it; and after a retransmission timeout the sender is outside slow
  start.
\<close>

theorem C10_slow_start_is_never_reentered:
  "inSlowStart (newPragueSender M D pc mds l4s)
   \<and> (\<forall>ops p p'. run ipn sp ops p = Inr p' \<longrightarrow> \<not> inSlowStart p \<longrightarrow> \<not> inSlowStart p')
   \<and> \<not> inSlowStart (OnRetransmissionTimeout ipn r q)"
  by (auto simp: newPragueSender_def not_inSlowStart_OnRetransmissionTimeout
           dest: inSlowStart_run)

theorem C10_witness:
  "run (- 1) (\<lambda>t b u. u) [PacketAcked 1 1200 0 0]
     (OnRetransmissionTimeout (- 1) True (newPragueSender (2 ^ 62 - 1) 524288 () 1200 True))
   = Inr (OnPacketAcked 1 1200 0 0
            (OnRetransmissionTimeout (- 1) True (newPragueSender (2 ^ 62 - 1) 524288 () 1200 True)))
   \<and> \<not> inSlowStart
         (OnPacketAcked 1 1200 0 0
            (OnRetransmissionTimeout (- 1) True
               (newPragueSender (2 ^ 62 - 1) 524288 () 1200 True)))"
proof -
  let ?q = "OnRetransmissionTimeout (- 1) True (newPragueSender (2 ^ 62 - 1) 524288 () 1200 True)"
  have h: "run (- 1) (\<lambda>t b u. u) [PacketAcked 1 1200 0 0] ?q = Inr (OnPacketAcked 1 1200 0 0 ?q)"
    by simp
  have c: "\<not> inSlowStart ?q"
    and a: "\<forall>ops p p'. run (- 1) (\<lambda>t b (u::unit). u) ops p = Inr p'
              \<longrightarrow> \<not> inSlowStart p \<longrightarrow> \<not> inSlowStart p'"
    using C10_slow_start_is_never_reentered
            [of "2 ^ 62 - 1" 524288 "()" 1200 True "- 1" "\<lambda>t b u. u" True
                "newPragueSender (2 ^ 62 - 1) 524288 () 1200 True"]
    by blast+
  from a h c have "\<not> inSlowStart (OnPacketAcked 1 1200 0 0 ?q)"
    by blast
  with h show ?thesis
    by simp
qed

end
